theory Spec2Isabelle
  imports Main "HOL-Library.AList" "HOL-Library.Multiset"
begin

section \<open>Data model of generate-extra-json.mjs\<close>

text \<open>
  The script reads JSON documents, updates them in place and writes them back. A
  document that was just parsed from a file is owned by the function that read it, so
  it is modelled as a value that the function returns updated. Property lists keep the
  order in which \<open>Object.values\<close> enumerates them.

  The only exception a function of the script raises by itself is the \<open>TypeError\<close> of
  reading a property of \<open>undefined\<close> or \<open>null\<close>.
\<close>

datatype error = TypeError

record VersionInfo =
  version :: string
  revision :: string

record ChannelRecord = VersionInfo +
  channel :: string
  ok :: bool

record Timestamped =
  timestamp :: string

text \<open>
  \<open>last-known-good-versions.json\<close>: the object \<open>channels\<close> maps a channel name to an
  entry with a \<open>version\<close> and a \<open>revision\<close>; whatever else an entry holds is the
  extension \<open>'a\<close> of the record, which no function of the script touches.
\<close>

record 'a KnownGoodRegistry = Timestamped +
  channels :: "(string \<times> 'a VersionInfo_scheme) list"

text \<open>
  \<open>createTimestamp\<close> reads the wall clock. The clock is a function from the number of
  readings taken so far to the text of the next reading; the state carries that number,
  so every call of \<open>createTimestamp\<close> is visible in the state.
\<close>

type_synonym clock = "nat \<Rightarrow> string"

definition createTimestamp :: "clock \<Rightarrow> nat \<Rightarrow> string \<times> nat" where
  "createTimestamp now t = (now t, Suc t)"

section \<open>prepareLastKnownGoodVersionsData\<close>

text \<open>
  \<open>knownData.version = ...; knownData.revision = ...\<close> writes through the reference
  \<open>knownData\<close> into the entry stored under \<open>channelName\<close>: the entry changes where it
  stands, and no key is added or moved.
\<close>

definition assignKnown ::
  "string \<Rightarrow> string \<Rightarrow> string \<Rightarrow> (string \<times> 'a VersionInfo_scheme) list
    \<Rightarrow> (string \<times> 'a VersionInfo_scheme) list" where
  "assignKnown name v r cs =
     map (\<lambda>(k, e). if k = name then (k, e\<lparr>version := v, revision := r\<rparr>) else (k, e)) cs"

text \<open>
  The names that the object \<open>channels\<close>, as every object that \<open>JSON.parse\<close> builds,
  inherits from \<open>Object.prototype\<close>. A property read \<open>channels[name]\<close> with one of
  these names finds the inherited value when the object has no property of its own
  under that name.
\<close>

definition inheritedNames :: "string list" where
  "inheritedNames =
     [''constructor'', ''__defineGetter__'', ''__defineSetter__'', ''hasOwnProperty'',
      ''__lookupGetter__'', ''__lookupSetter__'', ''isPrototypeOf'',
      ''propertyIsEnumerable'', ''toString'', ''valueOf'', ''__proto__'',
      ''toLocaleString'']"

text \<open>
  One turn of the loop over \<open>Object.values(data.channels)\<close> (lines 32 to 43). The
  lookup \<open>lastKnownGoodVersions.channels[channelName]\<close> is the lookup among the
  properties of the object \<open>channels\<close> itself; when there is none of that name,
  \<open>knownData\<close> is \<open>undefined\<close> and \<open>knownData.version\<close> raises. That is what line 34
  does for every name outside \<open>inheritedNames\<close>. Channel names are names of release
  channels, and the model follows the script for them only: for a record whose channel
  is one of the \<open>inheritedNames\<close> and no property of \<open>channels\<close>, line 34 finds the
  inherited object and raises nothing, and what is proved of the failing lookup below
  assumes that no \<open>ok\<close> record carries such a name.
\<close>

definition reconcileChannel ::
  "clock \<Rightarrow> 'b ChannelRecord_scheme \<Rightarrow> 'a KnownGoodRegistry \<times> nat
    \<Rightarrow> error + 'a KnownGoodRegistry \<times> nat" where
  "reconcileChannel now channelData s =
     (let (lastKnownGoodVersions, t) = s in
      if \<not> ok channelData then Inr s
      else
        (case map_of (channels lastKnownGoodVersions) (channel channelData) of
           None \<Rightarrow> Inl TypeError
         | Some knownData \<Rightarrow>
             if version knownData = version channelData
                \<and> revision knownData = revision channelData
             then Inr s
             else
               (let (stamp, t') = createTimestamp now t in
                Inr (lastKnownGoodVersions
                       \<lparr>timestamp := stamp,
                        channels := assignKnown (channel channelData)
                          (version channelData) (revision channelData)
                          (channels lastKnownGoodVersions)\<rparr>, t'))))"

fun reconcileChannels ::
  "clock \<Rightarrow> 'b ChannelRecord_scheme list \<Rightarrow> 'a KnownGoodRegistry \<times> nat
    \<Rightarrow> error + 'a KnownGoodRegistry \<times> nat" where
  "reconcileChannels now [] s = Inr s"
| "reconcileChannels now (channelData # rest) s =
     (case reconcileChannel now channelData s of
        Inl e \<Rightarrow> Inl e
      | Inr s' \<Rightarrow> reconcileChannels now rest s')"

text \<open>
  \<open>data\<close> is the property list of \<open>data.channels\<close>; the second argument is the
  registry as \<open>readJsonFile\<close> returned it, with the number of clock readings so far.
\<close>

definition prepareLastKnownGoodVersionsData ::
  "clock \<Rightarrow> (string \<times> 'b ChannelRecord_scheme) list \<Rightarrow> 'a KnownGoodRegistry \<times> nat
    \<Rightarrow> error + 'a KnownGoodRegistry \<times> nat" where
  "prepareLastKnownGoodVersionsData now data s = reconcileChannels now (map snd data) s"

text \<open>
  A channel record differs from the persisted registry when the entry of its channel
  does not carry the same version and revision.
\<close>

definition differs :: "'a KnownGoodRegistry \<Rightarrow> 'b ChannelRecord_scheme \<Rightarrow> bool" where
  "differs reg c =
     (case map_of (channels reg) (channel c) of
        None \<Rightarrow> True
      | Some k \<Rightarrow> \<not> (version k = version c \<and> revision k = revision c))"

section \<open>The version comparator\<close>

text \<open>
  \<open>isOlderVersion\<close> is imported from \<open>is-older-version.mjs\<close>, which is not among the
  sources. The functions of the script take it as the parameter \<open>older\<close>; what they
  need of it is its contract on the versions at hand: a strict order, and a total one.
\<close>

type_synonym comparator = "string \<Rightarrow> string \<Rightarrow> bool"

definition strictOrderOn :: "comparator \<Rightarrow> string set \<Rightarrow> bool" where
  "strictOrderOn older S \<longleftrightarrow>
     (\<forall>a\<in>S. \<not> older a a)
     \<and> (\<forall>a\<in>S. \<forall>b\<in>S. \<forall>c\<in>S. older a b \<longrightarrow> older b c \<longrightarrow> older a c)"

definition totalOn :: "comparator \<Rightarrow> string set \<Rightarrow> bool" where
  "totalOn older S \<longleftrightarrow> (\<forall>a\<in>S. \<forall>b\<in>S. a \<noteq> b \<longrightarrow> older a b \<or> older b a)"

text \<open>\<open>s.split('.')\<close>: the pieces between the dots; never empty.\<close>

fun splitDot :: "string \<Rightarrow> string list" where
  "splitDot [] = [[]]"
| "splitDot (c # cs) =
     (if c = CHR ''.'' then [] # splitDot cs
      else (case splitDot cs of [] \<Rightarrow> [[c]] | w # ws \<Rightarrow> (c # w) # ws))"

text \<open>The class \<open>\d\<close> of a regular expression: the ten decimal digits.\<close>

definition isDigit :: "char \<Rightarrow> bool" where
  "isDigit c \<longleftrightarrow> c \<in> set ''0123456789''"

text \<open>
  Modelled from the spec: the integer components of a version, for \<open>isOlderVersion\<close>
  of \<open>is-older-version.mjs\<close>, which is missing from the sources. A component denotes
  an integer when it is a non-empty run of decimal digits.
\<close>

definition digitValue :: "char \<Rightarrow> nat" where
  "digitValue c = of_char c - 48"

definition parseComponent :: "string \<Rightarrow> nat option" where
  "parseComponent s =
     (if s \<noteq> [] \<and> list_all isDigit s
      then Some (foldl (\<lambda>n c. 10 * n + digitValue c) 0 s) else None)"

fun parseComponents :: "string list \<Rightarrow> nat list option" where
  "parseComponents [] = Some []"
| "parseComponents (s # ss) =
     (case parseComponent s of
        None \<Rightarrow> None
      | Some n \<Rightarrow> (case parseComponents ss of None \<Rightarrow> None | Some ns \<Rightarrow> Some (n # ns)))"

text \<open>
  Modelled from the spec: the comparison of the components, for \<open>isOlderVersion\<close> of
  \<open>is-older-version.mjs\<close>, which is missing from the sources. Left to right, the first
  pair that differs decides; when all compared pairs are equal, neither version is
  older.
\<close>

fun olderComponents :: "nat list \<Rightarrow> nat list \<Rightarrow> bool" where
  "olderComponents (x # xs) (y # ys) =
     (if x < y then True else if y < x then False else olderComponents xs ys)"
| "olderComponents _ _ = False"

text \<open>
  Modelled from the spec: \<open>isOlderVersion\<close> of \<open>is-older-version.mjs\<close>, which is
  missing from the sources. Section 4.1 of the specification: split both strings on
  the dot into integer components, compare them left to right, the first differing
  pair decides, and versions whose compared components are all equal are not older
  than one another. The specification leaves strings that are no dotted integers
  open; here they are older than nothing and nothing is older than them.
\<close>

definition isOlderVersion :: comparator where
  "isOlderVersion a b =
     (case (parseComponents (splitDot a), parseComponents (splitDot b)) of
        (Some xs, Some ys) \<Rightarrow> olderComponents xs ys
      | _ \<Rightarrow> False)"

text \<open>
  Well-formed versions: \<open>n\<close> components, each a decimal numeral without leading
  zeros. \<open>joinDot\<close> is \<open>join('.')\<close>, the inverse of \<open>splitDot\<close>, and \<open>decimal\<close> the
  value of a run of digits.
\<close>

definition canonical :: "string \<Rightarrow> bool" where
  "canonical s \<longleftrightarrow> s \<noteq> [] \<and> list_all isDigit s \<and> (hd s = CHR ''0'' \<longrightarrow> s = ''0'')"

definition validVersion :: "nat \<Rightarrow> string \<Rightarrow> bool" where
  "validVersion n v \<longleftrightarrow> length (splitDot v) = n \<and> list_all canonical (splitDot v)"

fun joinDot :: "string list \<Rightarrow> string" where
  "joinDot [] = []"
| "joinDot [w] = w"
| "joinDot (w # ws) = w @ CHR ''.'' # joinDot ws"

abbreviation decimal :: "string \<Rightarrow> nat" where
  "decimal s \<equiv> foldl (\<lambda>n c. 10 * n + digitValue c) 0 s"

section \<open>updateLatestVersionsPerMilestone\<close>



text \<open>\<open>version.split('.')[0]\<close>\<close>

definition milestoneOf :: "string \<Rightarrow> string" where
  "milestoneOf v = hd (splitDot v)"




section \<open>updateKnownGoodVersions\<close>

text \<open>\<open>known-good-versions.json\<close>: the array \<open>versions\<close> of entries.\<close>

record FlatCatalog = Timestamped +
  versions :: "VersionInfo list"

text \<open>
  \<open>Array.prototype.sort\<close> with a comparison function. For a consistent comparison
  function the language fixes the result: the stable sorted arrangement of the array,
  which insertion from the right computes; an element goes in front of the first
  element it does not compare greater than.
\<close>

fun sortInsert :: "('a \<Rightarrow> 'a \<Rightarrow> int) \<Rightarrow> 'a \<Rightarrow> 'a list \<Rightarrow> 'a list" where
  "sortInsert cmp a [] = [a]"
| "sortInsert cmp a (b # bs) =
     (if cmp a b \<le> 0 then a # b # bs else b # sortInsert cmp a bs)"

fun arraySort :: "('a \<Rightarrow> 'a \<Rightarrow> int) \<Rightarrow> 'a list \<Rightarrow> 'a list" where
  "arraySort cmp [] = []"
| "arraySort cmp (a # as) = sortInsert cmp a (arraySort cmp as)"

text \<open>The comparison function of lines 67 to 71.\<close>

definition compareEntries ::
  "comparator \<Rightarrow> 'a VersionInfo_scheme \<Rightarrow> 'a VersionInfo_scheme \<Rightarrow> int" where
  "compareEntries older a b =
     (if older (version a) (version b) then - 1
      else if version a = version b then 0
      else 1)"

text \<open>
  One turn of the loop of lines 55 to 66. The state is the \<open>Set\<close> of version strings,
  the array \<open>versions\<close>, the timestamp of the catalog and the state of the clock.
\<close>

type_synonym mergeState = "string set \<times> VersionInfo list \<times> string \<times> nat"

definition mergeEntry :: "clock \<Rightarrow> 'a VersionInfo_scheme \<Rightarrow> mergeState \<Rightarrow> mergeState" where
  "mergeEntry now entry s =
     (let (seen, vs, stamp, t) = s in
      if version entry \<in> seen then s
      else
        (let (stamp', t') = createTimestamp now t
         in (insert (version entry) seen,
             vs @ [\<lparr>version = version entry, revision = revision entry\<rparr>],
             stamp', t')))"

fun mergeEntries :: "clock \<Rightarrow> 'a VersionInfo_scheme list \<Rightarrow> mergeState \<Rightarrow> mergeState" where
  "mergeEntries now [] s = s"
| "mergeEntries now (entry # rest) s = mergeEntries now rest (mergeEntry now entry s)"

text \<open>
  The first argument pair is the catalog read from \<open>filePath\<close> with the state of the
  clock; the result is the catalog that is written back and returned.
\<close>

definition updateKnownGoodVersions ::
  "comparator \<Rightarrow> clock \<Rightarrow> FlatCatalog \<times> nat \<Rightarrow> 'a KnownGoodRegistry
    \<Rightarrow> FlatCatalog \<times> nat" where
  "updateKnownGoodVersions older now s lastKnownGoodVersions =
     (let (knownGoodVersions, t) = s;
          (seen, vs, stamp, t') =
             mergeEntries now (map snd (channels lastKnownGoodVersions))
               (set (map version (versions knownGoodVersions)),
                versions knownGoodVersions, timestamp knownGoodVersions, t)
      in (knownGoodVersions
            \<lparr>timestamp := stamp, versions := arraySort (compareEntries older) vs\<rparr>, t'))"

text \<open>How often a version occurs in a list of entries.\<close>

definition occurrences :: "string \<Rightarrow> 'a VersionInfo_scheme list \<Rightarrow> nat" where
  "occurrences v es = length (filter (\<lambda>e. version e = v) es)"

text \<open>
  Ascending order of a list of entries: of two entries, the later one carries the same
  version or a newer one, and is never the older one.
\<close>

definition inOrder ::
  "comparator \<Rightarrow> 'a VersionInfo_scheme \<Rightarrow> 'a VersionInfo_scheme \<Rightarrow> bool" where
  "inOrder older a b \<longleftrightarrow>
     (version a = version b \<or> older (version a) (version b))
     \<and> \<not> older (version b) (version a)"

definition ascending :: "comparator \<Rightarrow> 'a VersionInfo_scheme list \<Rightarrow> bool" where
  "ascending older es = sorted_wrt (inOrder older) es"

section \<open>prepareLatestPatchVersionsPerBuild\<close>

text \<open>
  The result: the timestamp of the catalog and the object \<open>builds\<close>, whose properties
  are listed in the order in which they were created.
\<close>

record BuildTrackRegistry = Timestamped +
  builds :: "(string \<times> VersionInfo) list"

text \<open>
  The characters that the dot of a regular expression does not match. Strings are
  lists of 8-bit characters, so the line feed and the carriage return are the only
  ones.
\<close>

definition isLineTerminator :: "char \<Rightarrow> bool" where
  "isLineTerminator c \<longleftrightarrow> c = CHR 0x0A \<or> c = CHR 0x0D"

text \<open>
  \<open>re.exec(version)\<close> for \<open>/(?<build>.*)\.(?<patch>\d+)$/\<close>, as the pair of the
  groups \<open>build\<close> and \<open>patch\<close>. The digits of \<open>patch\<close> hold no dot and reach the end of
  the string, so the dot in front of them is the last dot of the string, and there is
  a match exactly when what follows the last dot is a non-empty run of digits. The
  match starts at the leftmost position from which \<open>.*\<close> reaches that dot: at the
  start of the string, or behind the last line terminator in front of the dot.
\<close>

definition reExec :: "string \<Rightarrow> (string \<times> string) option" where
  "reExec v =
     (let patch = rev (takeWhile (\<lambda>c. c \<noteq> CHR ''.'') (rev v));
          front = rev (drop 1 (dropWhile (\<lambda>c. c \<noteq> CHR ''.'') (rev v)))
      in if CHR ''.'' \<in> set v \<and> patch \<noteq> [] \<and> list_all isDigit patch
         then Some (rev (takeWhile (\<lambda>c. \<not> isLineTerminator c) (rev front)), patch)
         else None)"

text \<open>
  One turn of the loop of lines 158 to 170 on the \<open>Map\<close>, an association list in
  insertion order: \<open>map.set\<close> replaces the value of a key where it stands and appends
  a new key. Without a match, \<open>match.groups\<close> raises.
\<close>

definition reduceEntry ::
  "comparator \<Rightarrow> VersionInfo \<Rightarrow> (string \<times> VersionInfo) list
    \<Rightarrow> error + (string \<times> VersionInfo) list" where
  "reduceEntry older entry m =
     (case reExec (version entry) of
        None \<Rightarrow> Inl TypeError
      | Some (build, patch) \<Rightarrow>
          (case map_of m build of
             Some knownEntry \<Rightarrow>
               if older (version knownEntry) (version entry)
               then Inr (AList.update build entry m)
               else Inr m
           | None \<Rightarrow> Inr (AList.update build entry m)))"

fun reduceEntries ::
  "comparator \<Rightarrow> VersionInfo list \<Rightarrow> (string \<times> VersionInfo) list
    \<Rightarrow> error + (string \<times> VersionInfo) list" where
  "reduceEntries older [] m = Inr m"
| "reduceEntries older (entry # rest) m =
     (case reduceEntry older entry m of
        Inl e \<Rightarrow> Inl e
      | Inr m' \<Rightarrow> reduceEntries older rest m')"

text \<open>The loop of lines 176 to 178: \<open>builds[partialVersion] = entry\<close> for every pair.\<close>

fun fillBuilds ::
  "(string \<times> VersionInfo) list \<Rightarrow> (string \<times> VersionInfo) list
    \<Rightarrow> (string \<times> VersionInfo) list" where
  "fillBuilds [] bs = bs"
| "fillBuilds ((partialVersion, entry) # rest) bs =
     fillBuilds rest (AList.update partialVersion entry bs)"

definition prepareLatestPatchVersionsPerBuild ::
  "comparator \<Rightarrow> FlatCatalog \<Rightarrow> error + BuildTrackRegistry" where
  "prepareLatestPatchVersionsPerBuild older knownGoodVersions =
     (case reduceEntries older (versions knownGoodVersions) [] of
        Inl e \<Rightarrow> Inl e
      | Inr m \<Rightarrow>
          Inr \<lparr>timestamp = timestamp knownGoodVersions, builds = fillBuilds m []\<rparr>)"

text \<open>The build prefix of an entry: the group \<open>build\<close> of the match on its version.\<close>

definition buildOf :: "VersionInfo \<Rightarrow> string option" where
  "buildOf e = map_option fst (reExec (version e))"

text \<open>
  Entry \<open>e\<close> is the latest of build \<open>p\<close> in the list \<open>es\<close>: it stands in the list and
  its build is \<open>p\<close>, every entry of that build in front of it is strictly older, and
  it is older than no entry of that build behind it.
\<close>

definition latestOf :: "comparator \<Rightarrow> VersionInfo list \<Rightarrow> string \<Rightarrow> VersionInfo \<Rightarrow> bool" where
  "latestOf older es p e \<longleftrightarrow>
     (\<exists>xs ys. es = xs @ e # ys \<and> buildOf e = Some p
        \<and> (\<forall>x\<in>set xs. buildOf x = Some p \<longrightarrow> older (version x) (version e))
        \<and> (\<forall>y\<in>set ys. buildOf y = Some p \<longrightarrow> \<not> older (version e) (version y)))"

text \<open>
  The invariant of the loop, for the entries \<open>ps\<close> processed so far: the keys of the
  map are distinct and are the builds of the processed entries, and every key maps to
  the latest entry of its build.
\<close>

definition reduced ::
  "comparator \<Rightarrow> VersionInfo list \<Rightarrow> (string \<times> VersionInfo) list \<Rightarrow> bool" where
  "reduced older ps m \<longleftrightarrow>
     distinct (map fst m)
     \<and> (\<forall>x\<in>set ps. \<exists>p. buildOf x = Some p \<and> p \<in> fst ` set m)
     \<and> (\<forall>p e. map_of m p = Some e \<longrightarrow> latestOf older ps p e)"

text \<open>The catalog of the example in the specification.\<close>

definition exampleCatalog :: FlatCatalog where
  "exampleCatalog =
     \<lparr>timestamp = ''2023-06-01T00:00:00.000Z'',
      versions =
        [\<lparr>version = ''120.0.1.1'', revision = ''1''\<rparr>,
         \<lparr>version = ''120.0.1.5'', revision = ''2''\<rparr>,
         \<lparr>version = ''121.0.2.1'', revision = ''3''\<rparr>]\<rparr>"

section \<open>addDownloads\<close>

text \<open>
  \<open>addDownloads\<close> is the one function of the script that is handed objects it does not
  own: the documents the other functions return, whose entries can be shared between
  documents (an entry of \<open>builds\<close> is an entry of the catalog). Its model therefore
  keeps the record objects in a store, a list indexed by address, and a document holds
  the addresses of its records. The function writes to record objects only; the
  document object and its collections are only read, and are values.
\<close>

record Download =
  platform :: "string option"
  url :: string

type_synonym Downloads = "(string \<times> Download list) list"

text \<open>
  A record object: \<open>version\<close>, \<open>revision\<close>, the property \<open>downloads\<close> when it has one,
  and whatever else it holds in the extension \<open>'a\<close>.
\<close>

record RecordObject = VersionInfo +
  downloads :: "Downloads option"

type_synonym 'a store = "'a RecordObject_scheme list"

text \<open>
  A document: its timestamp and its collections by property name (\<open>channels\<close>,
  \<open>milestones\<close>, \<open>versions\<close>, \<open>builds\<close>); a collection lists the keys or indices of
  an object or array with the addresses of the records, in the order of
  \<open>Object.values\<close>.
\<close>

record Document = Timestamped +
  collections :: "(string \<times> (string \<times> nat) list) list"

text \<open>In a store, a document is valid when its addresses are allocated.\<close>

definition validDocument :: "'a store \<Rightarrow> Document \<Rightarrow> bool" where
  "validDocument h data \<longleftrightarrow>
     (\<forall>coll\<in>snd ` set (collections data). \<forall>a\<in>snd ` set coll. a < length h)"

text \<open>
  The imports of the script from \<open>url-utils.mjs\<close> and \<open>is-older-version.mjs\<close>, which
  are not among the sources: the lists \<open>binaries\<close> and \<open>platforms\<close>, the function
  \<open>makeDownloadUrl\<close> of a version, an optional platform and a binary, and the two
  availability predicates.
\<close>

record imported =
  binaries :: "string list"
  platforms :: "string list"
  makeDownloadUrl :: "string \<Rightarrow> string option \<Rightarrow> string \<Rightarrow> string"
  predatesChromeDriverAvailability :: "string \<Rightarrow> bool"
  predatesChromeHeadlessShellAvailability :: "string \<Rightarrow> bool"

text \<open>
  \<open>structuredClone\<close> on a collection: every record gets a copy at a fresh address, the
  end of the store; the memo maps the records already copied to their copies, so a
  record that is referenced twice is copied once.
\<close>

type_synonym memo = "(nat \<times> nat) list"

fun cloneRefs ::
  "'a store \<Rightarrow> memo \<Rightarrow> (string \<times> nat) list \<Rightarrow> 'a store \<times> memo \<times> (string \<times> nat) list" where
  "cloneRefs h memo [] = (h, memo, [])"
| "cloneRefs h memo ((k, a) # rest) =
     (case map_of memo a of
        Some a' \<Rightarrow>
          (let (h', memo', rest') = cloneRefs h memo rest
           in (h', memo', (k, a') # rest'))
      | None \<Rightarrow>
          (let a' = length h;
               (h', memo', rest') = cloneRefs (h @ [h ! a]) ((a, a') # memo) rest
           in (h', memo', (k, a') # rest')))"

fun cloneCollections ::
  "'a store \<Rightarrow> memo \<Rightarrow> (string \<times> (string \<times> nat) list) list
    \<Rightarrow> 'a store \<times> memo \<times> (string \<times> (string \<times> nat) list) list" where
  "cloneCollections h memo [] = (h, memo, [])"
| "cloneCollections h memo ((name, coll) # rest) =
     (let (h1, memo1, coll') = cloneRefs h memo coll;
          (h2, memo2, rest') = cloneCollections h1 memo1 rest
      in (h2, memo2, (name, coll') # rest'))"

definition structuredClone :: "'a store \<Rightarrow> Document \<Rightarrow> 'a store \<times> Document" where
  "structuredClone h data =
     (let (h', memo', colls) = cloneCollections h [] (collections data)
      in (h', data\<lparr>collections := colls\<rparr>))"

text \<open>
  One turn of the loop over \<open>binaries\<close> (lines 80 to 117) for a record of the given
  version; \<open>ds\<close> is the object \<open>downloads\<close>. The assignment \<open>downloads[binary] = []\<close>
  and the pushes that follow leave the finished array under the key. The branch for
  \<open>mojojs\<close> behind the assignment is kept as the source has it.
\<close>

definition addBinary :: "imported \<Rightarrow> string \<Rightarrow> string \<Rightarrow> Downloads \<Rightarrow> Downloads" where
  "addBinary env v binary ds =
     (if binary = ''chromedriver'' \<and> predatesChromeDriverAvailability env v then ds
      else if binary = ''chrome-headless-shell''
              \<and> predatesChromeHeadlessShellAvailability env v then ds
      else if binary = ''mojojs'' then ds
      else AList.update binary
             (if binary = ''mojojs''
              then [\<lparr>platform = None, url = makeDownloadUrl env v None binary\<rparr>]
              else map (\<lambda>p. \<lparr>platform = Some p, url = makeDownloadUrl env v (Some p) binary\<rparr>)
                     (platforms env))
             ds)"

fun addBinaries :: "imported \<Rightarrow> string \<Rightarrow> string list \<Rightarrow> Downloads \<Rightarrow> Downloads" where
  "addBinaries env v [] ds = ds"
| "addBinaries env v (binary # rest) ds = addBinaries env v rest (addBinary env v binary ds)"

text \<open>
  One turn of the loop over the records (lines 78 to 118): the record at address \<open>a\<close>
  gets a fresh \<open>downloads\<close> object, filled from its version.
\<close>

definition expandRecord :: "imported \<Rightarrow> nat \<Rightarrow> 'a store \<Rightarrow> 'a store" where
  "expandRecord env a h =
     h[a := (h ! a)\<lparr>downloads := Some (addBinaries env (version (h ! a)) (binaries env) [])\<rparr>]"

fun expandRecords :: "imported \<Rightarrow> nat list \<Rightarrow> 'a store \<Rightarrow> 'a store" where
  "expandRecords env [] h = h"
| "expandRecords env (a # rest) h = expandRecords env rest (expandRecord env a h)"

text \<open>
  \<open>addDownloads(data, key)\<close> in store \<open>h\<close>: the store after the call, and the copy or
  the TypeError of \<open>Object.values(undefined)\<close> when \<open>key\<close> names no collection.
\<close>

definition addDownloads ::
  "imported \<Rightarrow> 'a store \<Rightarrow> Document \<Rightarrow> string \<Rightarrow> 'a store \<times> (error + Document)" where
  "addDownloads env h data key =
     (let (h1, copy) = structuredClone h data
      in case map_of (collections copy) key of
           None \<Rightarrow> (h1, Inl TypeError)
         | Some records \<Rightarrow> (expandRecords env (map snd records) h1, Inr copy))"

text \<open>The keys of the \<open>downloads\<close> object: the binaries that no guard skips.\<close>

definition listed :: "imported \<Rightarrow> string \<Rightarrow> string \<Rightarrow> bool" where
  "listed env v binary \<longleftrightarrow>
     \<not> (binary = ''chromedriver'' \<and> predatesChromeDriverAvailability env v)
     \<and> \<not> (binary = ''chrome-headless-shell'' \<and> predatesChromeHeadlessShellAvailability env v)
     \<and> binary \<noteq> ''mojojs''"

text \<open>
  Invariants of the memo of \<open>structuredClone\<close>, for a store that had \<open>L\<close> objects when
  the copy began: the copies are allocated behind the original objects, and hold what
  the originals hold.
\<close>

definition memoFresh :: "nat \<Rightarrow> 'a store \<Rightarrow> memo \<Rightarrow> bool" where
  "memoFresh L h memo \<longleftrightarrow> (\<forall>(a, a')\<in>set memo. L \<le> a' \<and> a' < length h)"

definition memoCopies :: "nat \<Rightarrow> 'a store \<Rightarrow> memo \<Rightarrow> bool" where
  "memoCopies L h memo \<longleftrightarrow> (\<forall>(a, a')\<in>set memo. a < L \<and> h ! a' = h ! a)"

text \<open>Two collections with the same keys whose records hold the same in store \<open>h\<close>.\<close>

definition sameRecords :: "'a store \<Rightarrow> (string \<times> nat) list \<Rightarrow> (string \<times> nat) list \<Rightarrow> bool" where
  "sameRecords h c c' \<longleftrightarrow> list_all2 (\<lambda>p q. fst q = fst p \<and> h ! snd q = h ! snd p) c c'"


text \<open>
  Document \<open>copy\<close> in store \<open>h'\<close> is a copy of document \<open>data\<close> in store \<open>h\<close>, up to
  the property \<open>downloads\<close> of the records: the same timestamp, the same collections
  with the same keys, and records that agree in every other field.
\<close>

definition copyOfDocument :: "'a store \<Rightarrow> Document \<Rightarrow> 'a store \<Rightarrow> Document \<Rightarrow> bool" where
  "copyOfDocument h data h' copy \<longleftrightarrow>
     timestamp copy = timestamp data
     \<and> list_all2
          (\<lambda>x y. fst y = fst x
             \<and> list_all2
                  (\<lambda>p q. fst q = fst p
                     \<and> (h' ! snd q)\<lparr>downloads := None\<rparr> = (h ! snd p)\<lparr>downloads := None\<rparr>)
                  (snd x) (snd y))
          (collections data) (collections copy)"

section \<open>Sample documents\<close>

text \<open>Concrete documents on which the theorems below are instantiated.\<close>

definition sampleClock :: clock where
  "sampleClock k = ''T'' @ replicate k (CHR ''+'')"

definition sampleRegistry :: "unit KnownGoodRegistry" where
  "sampleRegistry =
     \<lparr>timestamp = ''2023-06-01T00:00:00.000Z'',
      channels =
        [(''Stable'', \<lparr>version = ''113.0.5672.63'', revision = ''1121455''\<rparr>),
         (''Beta'', \<lparr>version = ''114.0.5735.16'', revision = ''1135570''\<rparr>)]\<rparr>"

definition sampleSnapshot :: "(string \<times> ChannelRecord) list" where
  "sampleSnapshot =
     [(''Stable'', \<lparr>version = ''114.0.5735.90'', revision = ''1135570'',
                    channel = ''Stable'', ok = True\<rparr>),
      (''Beta'', \<lparr>version = ''115.0.5790.3'', revision = ''1148114'',
                  channel = ''Beta'', ok = True\<rparr>),
      (''Dev'', \<lparr>version = ''116.0.5800.0'', revision = ''1150000'',
                 channel = ''Dev'', ok = False\<rparr>)]"

definition sampleReconciled :: "unit KnownGoodRegistry" where
  "sampleReconciled =
     \<lparr>timestamp = sampleClock 1,
      channels =
        [(''Stable'', \<lparr>version = ''114.0.5735.90'', revision = ''1135570''\<rparr>),
         (''Beta'', \<lparr>version = ''115.0.5790.3'', revision = ''1148114''\<rparr>)]\<rparr>"

text \<open>The same snapshot with the Beta channel down, and with the Dev channel up.\<close>

definition betaDown :: ChannelRecord where
  "betaDown = \<lparr>version = ''115.0.5790.3'', revision = ''1148114'',
                channel = ''Beta'', ok = False\<rparr>"

definition devUp :: ChannelRecord where
  "devUp = \<lparr>version = ''116.0.5800.0'', revision = ''1150000'',
             channel = ''Dev'', ok = True\<rparr>"


definition sampleChannels :: "unit KnownGoodRegistry" where
  "sampleChannels =
     \<lparr>timestamp = ''T+'',
      channels =
        [(''Stable'', \<lparr>version = ''114.0.5735.90'', revision = ''1135570''\<rparr>),
         (''Beta'', \<lparr>version = ''115.0.5790.3'', revision = ''1148114''\<rparr>),
         (''Dev'', \<lparr>version = ''116.0.5845.4'', revision = ''1160321''\<rparr>)]\<rparr>"


text \<open>A catalog, and what merging the registry above into it gives.\<close>

definition sampleCatalog :: FlatCatalog where
  "sampleCatalog =
     \<lparr>timestamp = ''2023-06-01T00:00:00.000Z'',
      versions =
        [\<lparr>version = ''113.0.5672.0'', revision = ''1121455''\<rparr>,
         \<lparr>version = ''113.0.5672.63'', revision = ''1121455''\<rparr>,
         \<lparr>version = ''114.0.5735.16'', revision = ''1135570''\<rparr>,
         \<lparr>version = ''115.0.5790.3'', revision = ''1148114''\<rparr>]\<rparr>"

definition sampleCatalogMerged :: FlatCatalog where
  "sampleCatalogMerged =
     \<lparr>timestamp = sampleClock 4,
      versions =
        [\<lparr>version = ''113.0.5672.0'', revision = ''1121455''\<rparr>,
         \<lparr>version = ''113.0.5672.63'', revision = ''1121455''\<rparr>,
         \<lparr>version = ''114.0.5735.16'', revision = ''1135570''\<rparr>,
         \<lparr>version = ''114.0.5735.90'', revision = ''1135570''\<rparr>,
         \<lparr>version = ''115.0.5790.3'', revision = ''1148114''\<rparr>,
         \<lparr>version = ''116.0.5845.4'', revision = ''1160321''\<rparr>]\<rparr>"

text \<open>
  A store with two records and a document whose collection names the second record
  twice; sample imports with two platforms; and the store and the copy that
  \<open>addDownloads\<close> gives for them.
\<close>

definition sampleImports :: imported where
  "sampleImports =
     \<lparr>binaries = [''chrome'', ''chromedriver'', ''chrome-headless-shell'', ''mojojs''],
      platforms = [''linux64'', ''win64''],
      makeDownloadUrl =
        (\<lambda>v p b. v @ ''/'' @ (case p of None \<Rightarrow> [] | Some q \<Rightarrow> q @ ''/'') @ b),
      predatesChromeDriverAvailability = (\<lambda>v. isOlderVersion v ''115.0.5763.0''),
      predatesChromeHeadlessShellAvailability = (\<lambda>v. isOlderVersion v ''120.0.6098.0'')\<rparr>"

definition sampleStore :: "unit store" where
  "sampleStore =
     [\<lparr>version = ''114.0.5735.90'', revision = ''1135570'', downloads = None\<rparr>,
      \<lparr>version = ''121.0.6167.85'', revision = ''1233107'', downloads = None\<rparr>]"

definition sampleDocument :: Document where
  "sampleDocument =
     \<lparr>timestamp = ''2024-01-24T00:00:00.000Z'',
      collections = [(''channels'', [(''Stable'', 1), (''Extended'', 0), (''Beta'', 1)])]\<rparr>"

definition sampleCopy :: Document where
  "sampleCopy =
     \<lparr>timestamp = ''2024-01-24T00:00:00.000Z'',
      collections = [(''channels'', [(''Stable'', 2), (''Extended'', 3), (''Beta'', 2)])]\<rparr>"

definition sampleExpanded :: "unit store" where
  "sampleExpanded =
     [\<lparr>version = ''114.0.5735.90'', revision = ''1135570'', downloads = None\<rparr>,
      \<lparr>version = ''121.0.6167.85'', revision = ''1233107'', downloads = None\<rparr>,
      \<lparr>version = ''121.0.6167.85'', revision = ''1233107'',
       downloads = Some
         [(''chrome'',
           [\<lparr>platform = Some ''linux64'', url = ''121.0.6167.85/linux64/chrome''\<rparr>,
            \<lparr>platform = Some ''win64'', url = ''121.0.6167.85/win64/chrome''\<rparr>]),
          (''chromedriver'',
           [\<lparr>platform = Some ''linux64'', url = ''121.0.6167.85/linux64/chromedriver''\<rparr>,
            \<lparr>platform = Some ''win64'', url = ''121.0.6167.85/win64/chromedriver''\<rparr>]),
          (''chrome-headless-shell'',
           [\<lparr>platform = Some ''linux64'',
             url = ''121.0.6167.85/linux64/chrome-headless-shell''\<rparr>,
            \<lparr>platform = Some ''win64'',
             url = ''121.0.6167.85/win64/chrome-headless-shell''\<rparr>])]\<rparr>,
      \<lparr>version = ''114.0.5735.90'', revision = ''1135570'',
       downloads = Some
         [(''chrome'',
           [\<lparr>platform = Some ''linux64'', url = ''114.0.5735.90/linux64/chrome''\<rparr>,
            \<lparr>platform = Some ''win64'', url = ''114.0.5735.90/win64/chrome''\<rparr>])]\<rparr>]"


section \<open>Properties of prepareLastKnownGoodVersionsData\<close>

lemma map_of_Some_key: "map_of xs k = Some v \<Longrightarrow> k \<in> fst ` set xs"
  by (induction xs) (auto split: if_splits)

lemma map_of_assignKnown:
  "map_of (assignKnown n v r cs) k =
     (if k = n then map_option (\<lambda>e. e\<lparr>version := v, revision := r\<rparr>) (map_of cs k)
      else map_of cs k)"
  by (induction cs) (auto simp: assignKnown_def)

lemma keys_assignKnown: "map fst (assignKnown n v r cs) = map fst cs"
  by (induction cs) (auto simp: assignKnown_def)

lemma reconcileChannel_not_ok: "\<not> ok c \<Longrightarrow> reconcileChannel now c s = Inr s"
  by (simp add: reconcileChannel_def split: prod.splits)

lemma reconcileChannel_cases:
  assumes "reconcileChannel now c (reg, t) = Inr (reg', t')"
  shows "(reg' = reg \<and> t' = t \<and> (ok c \<longrightarrow> \<not> differs reg c))
       \<or> (ok c \<and> differs reg c \<and> channel c \<in> fst ` set (channels reg) \<and> t' = Suc t
          \<and> reg' = reg\<lparr>timestamp := now t,
               channels := assignKnown (channel c) (version c) (revision c) (channels reg)\<rparr>)"
  using assms
  by (auto simp: reconcileChannel_def differs_def createTimestamp_def
      split: if_splits option.splits dest: map_of_Some_key)

lemma reconcileChannel_error:
  "reconcileChannel now c (reg, t) = Inl e \<longleftrightarrow>
     e = TypeError \<and> ok c \<and> channel c \<notin> fst ` set (channels reg)"
  by (cases e) (auto simp: reconcileChannel_def createTimestamp_def map_of_eq_None_iff
      split: if_splits option.splits dest: map_of_Some_key)

lemma reconcileChannel_keys:
  "reconcileChannel now c (reg, t) = Inr (reg', t') \<Longrightarrow>
     map fst (channels reg') = map fst (channels reg)"
  by (drule reconcileChannel_cases) (auto simp: keys_assignKnown)

lemma reconcileChannels_keys:
  "reconcileChannels now cs (reg, t) = Inr (reg', t') \<Longrightarrow>
     map fst (channels reg') = map fst (channels reg)"
proof (induction cs arbitrary: reg t)
  case Nil
  then show ?case by simp
next
  case (Cons c cs)
  then obtain reg1 t1 where s: "reconcileChannel now c (reg, t) = Inr (reg1, t1)"
    and r: "reconcileChannels now cs (reg1, t1) = Inr (reg', t')"
    by (auto split: sum.splits)
  from Cons.IH [OF r] reconcileChannel_keys [OF s] show ?case by simp
qed

lemma reconcileChannels_missing:
  "\<exists>c\<in>set cs. ok c \<and> channel c \<notin> fst ` set (channels reg) \<Longrightarrow>
     reconcileChannels now cs (reg, t) = Inl TypeError"
proof (induction cs arbitrary: reg t)
  case Nil
  then show ?case by simp
next
  case (Cons c cs)
  show ?case
  proof (cases "reconcileChannel now c (reg, t)")
    case (Inl e)
    then show ?thesis by (cases e) simp
  next
    case (Inr s')
    obtain reg1 t1 where s': "s' = (reg1, t1)" by (cases s')
    from Inr s' have k: "map fst (channels reg1) = map fst (channels reg)"
      by (auto dest: reconcileChannel_keys)
    from Inr s' have "\<not> (ok c \<and> channel c \<notin> fst ` set (channels reg))"
      using reconcileChannel_error [of now c reg t TypeError] by auto
    with Cons.prems have "\<exists>c\<in>set cs. ok c \<and> channel c \<notin> fst ` set (channels reg)"
      by auto
    moreover have "fst ` set (channels reg1) = fst ` set (channels reg)"
      using k by (metis set_map)
    ultimately have "reconcileChannels now cs (reg1, t1) = Inl TypeError"
      using Cons.IH [of reg1 t1] by simp
    with Inr s' show ?thesis by simp
  qed
qed

lemma reconcileChannels_append:
  "reconcileChannels now (xs @ ys) s =
     (case reconcileChannels now xs s of Inl e \<Rightarrow> Inl e
      | Inr s' \<Rightarrow> reconcileChannels now ys s')"
  by (induction xs arbitrary: s) (auto split: sum.splits)

lemma reconcileChannels_filter_ok:
  "reconcileChannels now (filter ok cs) s = reconcileChannels now cs s"
  by (induction cs arbitrary: s) (auto simp: reconcileChannel_not_ok split: sum.splits)

lemma reconcileChannels_untouched:
  "reconcileChannels now cs (reg, t) = Inr (reg', t') \<Longrightarrow>
   \<forall>c\<in>set cs. channel c = n \<longrightarrow> \<not> ok c \<Longrightarrow>
     map_of (channels reg') n = map_of (channels reg) n"
proof (induction cs arbitrary: reg t)
  case Nil
  then show ?case by simp
next
  case (Cons c cs)
  then obtain reg1 t1 where s: "reconcileChannel now c (reg, t) = Inr (reg1, t1)"
    and r: "reconcileChannels now cs (reg1, t1) = Inr (reg', t')"
    by (auto split: sum.splits)
  have "map_of (channels reg1) n = map_of (channels reg) n"
    using reconcileChannel_cases [OF s] Cons.prems(2)
    by (auto simp: map_of_assignKnown)
  moreover have "map_of (channels reg') n = map_of (channels reg1) n"
    using Cons.IH [OF r] Cons.prems(2) by simp
  ultimately show ?case by simp
qed

lemma reconcileChannels_clock:
  "reconcileChannels now cs (reg, t) = Inr (reg', t') \<Longrightarrow>
     t \<le> t' \<and> (t' = t \<longrightarrow> reg' = reg) \<and> (t < t' \<longrightarrow> timestamp reg' = now (t' - 1))"
proof (induction cs arbitrary: reg t)
  case Nil
  then show ?case by simp
next
  case (Cons c cs)
  then obtain reg1 t1 where s: "reconcileChannel now c (reg, t) = Inr (reg1, t1)"
    and r: "reconcileChannels now cs (reg1, t1) = Inr (reg', t')"
    by (auto split: sum.splits)
  from Cons.IH [OF r] reconcileChannel_cases [OF s] show ?case
    by (cases "t' = t1") auto
qed

lemma reconcileChannels_same:
  "\<forall>c\<in>set cs. ok c \<longrightarrow> \<not> differs reg c \<Longrightarrow> reconcileChannels now cs (reg, t) = Inr (reg, t)"
  by (induction cs)
     (auto simp: reconcileChannel_def differs_def split: option.splits)

lemma differs_cong:
  "map_of (channels reg') (channel c) = map_of (channels reg) (channel c) \<Longrightarrow>
     differs reg' c = differs reg c"
  by (simp add: differs_def)

lemma reconcileChannels_changed:
  "reconcileChannels now cs (reg, t) = Inr (reg', t') \<Longrightarrow>
   \<exists>c\<in>set cs. ok c \<and> differs reg c \<Longrightarrow> t < t'"
proof (induction cs arbitrary: reg t)
  case Nil
  then show ?case by simp
next
  case (Cons c cs)
  then obtain reg1 t1 where s: "reconcileChannel now c (reg, t) = Inr (reg1, t1)"
    and r: "reconcileChannels now cs (reg1, t1) = Inr (reg', t')"
    by (auto split: sum.splits)
  from reconcileChannels_clock [OF r] have le: "t1 \<le> t'" by simp
  from reconcileChannel_cases [OF s] show ?case
  proof
    assume a: "reg1 = reg \<and> t1 = t \<and> (ok c \<longrightarrow> \<not> differs reg c)"
    with Cons.prems(2) have "\<exists>c\<in>set cs. ok c \<and> differs reg c" by auto
    with Cons.IH [of reg t] r a show ?thesis by simp
  next
    assume "ok c \<and> differs reg c \<and> channel c \<in> fst ` set (channels reg) \<and> t1 = Suc t
          \<and> reg1 = reg\<lparr>timestamp := now t,
               channels := assignKnown (channel c) (version c) (revision c) (channels reg)\<rparr>"
    with le show ?thesis by simp
  qed
qed

lemma distinct_ok_head:
  "distinct (map channel (filter ok (c # cs))) \<Longrightarrow> ok c \<Longrightarrow> c2 \<in> set cs \<Longrightarrow> ok c2 \<Longrightarrow>
     channel c2 \<noteq> channel c"
  by (force simp: image_iff)

lemma reconcileChannels_count:
  "reconcileChannels now cs (reg, t) = Inr (reg', t') \<Longrightarrow>
   distinct (map channel (filter ok cs)) \<Longrightarrow>
     t' = t + length (filter (\<lambda>c. ok c \<and> differs reg c) cs)"
proof (induction cs arbitrary: reg t)
  case Nil
  then show ?case by simp
next
  case (Cons c cs)
  then obtain reg1 t1 where s: "reconcileChannel now c (reg, t) = Inr (reg1, t1)"
    and r: "reconcileChannels now cs (reg1, t1) = Inr (reg', t')"
    by (auto split: sum.splits)
  have d: "distinct (map channel (filter ok cs))"
    using Cons.prems(2) by (auto split: if_splits)
  have other: "\<forall>c2\<in>set cs. ok c2 \<longrightarrow> differs reg1 c2 = differs reg c2"
  proof (intro ballI impI)
    fix c2 assume c2: "c2 \<in> set cs" "ok c2"
    show "differs reg1 c2 = differs reg c2"
    proof (cases "ok c")
      case True
      have "channel c2 \<noteq> channel c"
        by (rule distinct_ok_head [OF Cons.prems(2) True c2])
      with reconcileChannel_cases [OF s] show ?thesis
        by (auto intro!: differs_cong simp: map_of_assignKnown)
    next
      case False
      with s show ?thesis by (simp add: reconcileChannel_not_ok)
    qed
  qed
  then have "filter (\<lambda>c. ok c \<and> differs reg1 c) cs = filter (\<lambda>c. ok c \<and> differs reg c) cs"
    by (intro filter_cong) auto
  with Cons.IH [OF r d] have "t' = t1 + length (filter (\<lambda>c. ok c \<and> differs reg c) cs)"
    by simp
  with reconcileChannel_cases [OF s] show ?case by auto
qed

lemmas reconciler_defs =
  prepareLastKnownGoodVersionsData_def reconcileChannel_def assignKnown_def
  createTimestamp_def

lemma sample_run:
  "prepareLastKnownGoodVersionsData sampleClock sampleSnapshot (sampleRegistry, 0)
     = Inr (sampleReconciled, 2)"
  by (simp add: reconciler_defs sampleSnapshot_def sampleRegistry_def sampleReconciled_def)

lemma sample_rerun:
  "prepareLastKnownGoodVersionsData sampleClock sampleSnapshot (sampleReconciled, 2)
     = Inr (sampleReconciled, 2)"
  by (simp add: reconciler_defs sampleSnapshot_def sampleReconciled_def)

lemma sample_distinct: "distinct (map channel (filter ok (map snd sampleSnapshot)))"
  by (simp add: sampleSnapshot_def)

text \<open>
  Claim C1, as stated: the reconciler bumps the timestamp exactly once per run when a
  channel differs, and not once per changed channel. Line 41 stands inside the loop, so
  on the sample snapshot, in which Stable and Beta both differ, a run that starts with
  no clock reading taken ends with two taken, and leaves the second one in the
  registry, not the first.
\<close>

theorem reconciler_bumps_twice:
  "ok (snd (sampleSnapshot ! 0)) \<and> differs sampleRegistry (snd (sampleSnapshot ! 0))
   \<and> ok (snd (sampleSnapshot ! 1)) \<and> differs sampleRegistry (snd (sampleSnapshot ! 1))
   \<and> map_sum id snd
       (prepareLastKnownGoodVersionsData sampleClock sampleSnapshot (sampleRegistry, 0))
     = Inr 2
   \<and> map_sum id (timestamp \<circ> fst)
       (prepareLastKnownGoodVersionsData sampleClock sampleSnapshot (sampleRegistry, 0))
     = Inr (sampleClock 1)
   \<and> sampleClock 1 \<noteq> sampleClock 0"
proof -
  have "ok (snd (sampleSnapshot ! 0)) \<and> differs sampleRegistry (snd (sampleSnapshot ! 0))
   \<and> ok (snd (sampleSnapshot ! 1)) \<and> differs sampleRegistry (snd (sampleSnapshot ! 1))"
    by (simp add: sampleSnapshot_def sampleRegistry_def differs_def)
  moreover have "sampleClock 1 \<noteq> sampleClock 0"
    by (simp add: sampleClock_def)
  ultimately show ?thesis
    by (simp add: sample_run sampleReconciled_def)
qed

text \<open>
  Claim C1, amended: in a run that returns, the timestamp is assigned a fresh clock
  reading at every \<open>ok\<close> channel whose (version, revision) pair differs from the
  registry. When no \<open>ok\<close> channel differs from the persisted registry, the registry and
  the clock are unchanged; when one does, the timestamp ends as the last reading taken;
  and when the \<open>ok\<close> records name distinct channels, the number of readings is the
  number of \<open>ok\<close> channels that differ from the persisted registry.
\<close>

theorem reconciler_timestamp_per_change:
  assumes "prepareLastKnownGoodVersionsData now data (reg, t) = Inr (reg', t')"
  shows "(\<not> (\<exists>c\<in>snd ` set data. ok c \<and> differs reg c) \<longrightarrow> reg' = reg \<and> t' = t)
       \<and> ((\<exists>c\<in>snd ` set data. ok c \<and> differs reg c)
            \<longrightarrow> t < t' \<and> timestamp reg' = now (t' - 1))
       \<and> (distinct (map channel (filter ok (map snd data)))
            \<longrightarrow> t' = t + length (filter (\<lambda>c. ok c \<and> differs reg c) (map snd data)))"
proof -
  from assms have run: "reconcileChannels now (map snd data) (reg, t) = Inr (reg', t')"
    by (simp add: prepareLastKnownGoodVersionsData_def)
  have "reg' = reg \<and> t' = t" if "\<not> (\<exists>c\<in>snd ` set data. ok c \<and> differs reg c)"
    using reconcileChannels_same [of "map snd data" reg now t] that run by auto
  moreover have "t < t' \<and> timestamp reg' = now (t' - 1)"
    if "\<exists>c\<in>snd ` set data. ok c \<and> differs reg c"
  proof -
    from that have "t < t'" using reconcileChannels_changed [OF run] by simp
    with reconcileChannels_clock [OF run] show ?thesis by simp
  qed
  moreover have "t' = t + length (filter (\<lambda>c. ok c \<and> differs reg c) (map snd data))"
    if "distinct (map channel (filter ok (map snd data)))"
    using reconcileChannels_count [OF run that] .
  ultimately show ?thesis by blast
qed

theorem reconciler_timestamp_per_change_witness:
  "prepareLastKnownGoodVersionsData sampleClock sampleSnapshot (sampleRegistry, 0)
     = Inr (sampleReconciled, 2)
   \<and> (\<exists>c\<in>snd ` set sampleSnapshot. ok c \<and> differs sampleRegistry c)
   \<and> distinct (map channel (filter ok (map snd sampleSnapshot)))
   \<and> timestamp sampleReconciled = sampleClock (2 - 1)
   \<and> (2::nat)
       = 0 + length (filter (\<lambda>c. ok c \<and> differs sampleRegistry c) (map snd sampleSnapshot))
   \<and> prepareLastKnownGoodVersionsData sampleClock sampleSnapshot (sampleReconciled, 2)
     = Inr (sampleReconciled, 2)
   \<and> \<not> (\<exists>c\<in>snd ` set sampleSnapshot. ok c \<and> differs sampleReconciled c)"
proof -
  have e: "\<exists>c\<in>snd ` set sampleSnapshot. ok c \<and> differs sampleRegistry c"
    by (simp add: sampleSnapshot_def sampleRegistry_def differs_def)
  have n: "\<not> (\<exists>c\<in>snd ` set sampleSnapshot. ok c \<and> differs sampleReconciled c)"
    by (simp add: sampleSnapshot_def sampleReconciled_def differs_def)
  from reconciler_timestamp_per_change [OF sample_run] sample_distinct e
    reconciler_timestamp_per_change [OF sample_rerun] n
  show ?thesis by (simp add: sample_run sample_rerun)
qed



text \<open>
  Claim C9: a channel record with \<open>ok = false\<close> has no effect. Taking such a record
  out of the snapshot changes nothing in the outcome of the run (the registry, the
  clock readings taken, or the error); and when every record of the snapshot that
  names channel \<open>n\<close> has \<open>ok = false\<close>, the entry of \<open>n\<close> after the run is the
  persisted one.
\<close>

theorem reconciler_skips_not_ok:
  "(\<not> ok c \<longrightarrow>
      prepareLastKnownGoodVersionsData now (xs @ (k, c) # ys) s
        = prepareLastKnownGoodVersionsData now (xs @ ys) s)
   \<and> ((\<forall>c\<in>snd ` set data. channel c = n \<longrightarrow> \<not> ok c) \<longrightarrow>
        prepareLastKnownGoodVersionsData now data (reg, t) = Inr (reg', t') \<longrightarrow>
        map_of (channels reg') n = map_of (channels reg) n)"
proof (intro conjI impI)
  assume "\<not> ok c"
  then show "prepareLastKnownGoodVersionsData now (xs @ (k, c) # ys) s
        = prepareLastKnownGoodVersionsData now (xs @ ys) s"
    by (simp add: prepareLastKnownGoodVersionsData_def reconcileChannels_append
        reconcileChannel_not_ok split: sum.splits)
next
  assume a: "\<forall>c\<in>snd ` set data. channel c = n \<longrightarrow> \<not> ok c"
    and r: "prepareLastKnownGoodVersionsData now data (reg, t) = Inr (reg', t')"
  from r have "reconcileChannels now (map snd data) (reg, t) = Inr (reg', t')"
    by (simp add: prepareLastKnownGoodVersionsData_def)
  from reconcileChannels_untouched [OF this] a
  show "map_of (channels reg') n = map_of (channels reg) n" by simp
qed

lemma outage_run:
  "prepareLastKnownGoodVersionsData sampleClock
     ([hd sampleSnapshot] @ (''Beta'', betaDown) # []) (sampleRegistry, 0)
   = Inr (sampleRegistry
            \<lparr>timestamp := sampleClock 0,
             channels :=
               [(''Stable'', \<lparr>version = ''114.0.5735.90'', revision = ''1135570''\<rparr>),
                (''Beta'', \<lparr>version = ''114.0.5735.16'', revision = ''1135570''\<rparr>)]\<rparr>, 1)"
  by (simp add: reconciler_defs sampleSnapshot_def sampleRegistry_def betaDown_def)

theorem reconciler_skips_not_ok_witness:
  "\<not> ok betaDown
   \<and> \<not> (\<exists>c\<in>snd ` set ([hd sampleSnapshot] @ (''Beta'', betaDown) # []).
        channel c = ''Beta'' \<and> ok c)
   \<and> prepareLastKnownGoodVersionsData sampleClock
       ([hd sampleSnapshot] @ (''Beta'', betaDown) # []) (sampleRegistry, 0)
     = prepareLastKnownGoodVersionsData sampleClock ([hd sampleSnapshot] @ [])
         (sampleRegistry, 0)
   \<and> map_of (channels (sampleRegistry
            \<lparr>timestamp := sampleClock 0,
             channels :=
               [(''Stable'', \<lparr>version = ''114.0.5735.90'', revision = ''1135570''\<rparr>),
                (''Beta'', \<lparr>version = ''114.0.5735.16'', revision = ''1135570''\<rparr>)]\<rparr>))
        ''Beta''
     = map_of (channels sampleRegistry) ''Beta''
   \<and> map_of (channels sampleRegistry) ''Beta''
     = Some \<lparr>version = ''114.0.5735.16'', revision = ''1135570''\<rparr>"
proof -
  have a: "\<not> ok betaDown" by (simp add: betaDown_def)
  have b: "\<forall>c\<in>snd ` set ([hd sampleSnapshot] @ (''Beta'', betaDown) # []).
        channel c = ''Beta'' \<longrightarrow> \<not> ok c"
    by (simp add: sampleSnapshot_def betaDown_def)
  from reconciler_skips_not_ok
    [of betaDown sampleClock "[hd sampleSnapshot]" "''Beta''" "[]" "(sampleRegistry, 0)"
      "[hd sampleSnapshot] @ (''Beta'', betaDown) # []" "''Beta''" sampleRegistry 0]
    a b outage_run
  show ?thesis by (simp add: sampleRegistry_def)
qed

text \<open>
  Claim C10: the reconciler never adds a channel. When no \<open>ok\<close> record of the snapshot
  carries one of the names that every object inherits, and the snapshot holds an \<open>ok\<close>
  record whose channel is no key of the persisted registry, the run raises the
  TypeError of reading \<open>knownData.version\<close> on \<open>undefined\<close>; and a run that returns
  leaves the keys of the registry as they were, in the same order.
\<close>

theorem reconciler_never_adds_channel:
  "((\<exists>c\<in>snd ` set data. ok c \<and> channel c \<notin> fst ` set (channels reg))
      \<and> (\<forall>c\<in>snd ` set data. ok c \<longrightarrow> channel c \<notin> set inheritedNames) \<longrightarrow>
      prepareLastKnownGoodVersionsData now data (reg, t) = Inl TypeError)
   \<and> (prepareLastKnownGoodVersionsData now data (reg, t) = Inr (reg', t') \<longrightarrow>
        map fst (channels reg') = map fst (channels reg))"
proof (intro conjI impI)
  assume "(\<exists>c\<in>snd ` set data. ok c \<and> channel c \<notin> fst ` set (channels reg))
      \<and> (\<forall>c\<in>snd ` set data. ok c \<longrightarrow> channel c \<notin> set inheritedNames)"
  then have "\<exists>c\<in>set (map snd data). ok c \<and> channel c \<notin> fst ` set (channels reg)"
    by simp
  then show "prepareLastKnownGoodVersionsData now data (reg, t) = Inl TypeError"
    unfolding prepareLastKnownGoodVersionsData_def by (rule reconcileChannels_missing)
next
  assume "prepareLastKnownGoodVersionsData now data (reg, t) = Inr (reg', t')"
  then show "map fst (channels reg') = map fst (channels reg)"
    unfolding prepareLastKnownGoodVersionsData_def by (rule reconcileChannels_keys)
qed

theorem reconciler_never_adds_channel_witness:
  "(\<exists>c\<in>snd ` set (sampleSnapshot @ [(''Dev'', devUp)]).
       ok c \<and> channel c \<notin> fst ` set (channels sampleRegistry))
   \<and> \<not> (\<exists>c\<in>snd ` set (sampleSnapshot @ [(''Dev'', devUp)]).
          ok c \<and> channel c \<in> set inheritedNames)
   \<and> prepareLastKnownGoodVersionsData sampleClock (sampleSnapshot @ [(''Dev'', devUp)])
       (sampleRegistry, 0) = Inl TypeError
   \<and> prepareLastKnownGoodVersionsData sampleClock sampleSnapshot (sampleRegistry, 0)
       = Inr (sampleReconciled, 2)
   \<and> map fst (channels sampleReconciled) = [''Stable'', ''Beta'']
   \<and> map fst (channels sampleRegistry) = [''Stable'', ''Beta'']"
proof -
  have a: "\<exists>c\<in>snd ` set (sampleSnapshot @ [(''Dev'', devUp)]).
       ok c \<and> channel c \<notin> fst ` set (channels sampleRegistry)"
    by (simp add: sampleSnapshot_def devUp_def sampleRegistry_def)
  have n: "\<forall>c\<in>snd ` set (sampleSnapshot @ [(''Dev'', devUp)]).
       ok c \<longrightarrow> channel c \<notin> set inheritedNames"
    by (simp add: sampleSnapshot_def devUp_def inheritedNames_def)
  have b: "prepareLastKnownGoodVersionsData sampleClock (sampleSnapshot @ [(''Dev'', devUp)])
       (sampleRegistry, 0) = Inl TypeError"
    using reconciler_never_adds_channel
      [where data = "sampleSnapshot @ [(''Dev'', devUp)]" and reg = sampleRegistry,
        THEN conjunct1, THEN mp, OF conjI [OF a n]] .
  have c: "map fst (channels sampleReconciled) = map fst (channels sampleRegistry)"
    using reconciler_never_adds_channel
      [where data = sampleSnapshot and reg = sampleRegistry and now = sampleClock
        and reg' = sampleReconciled] sample_run
    by blast
  have n': "\<not> (\<exists>c\<in>snd ` set (sampleSnapshot @ [(''Dev'', devUp)]).
          ok c \<and> channel c \<in> set inheritedNames)"
    using n by blast
  have k: "map fst (channels sampleRegistry) = [''Stable'', ''Beta'']"
    by (simp add: sampleRegistry_def)
  from a n' b sample_run c k show ?thesis by (intro conjI) simp_all
qed


section \<open>Properties of the comparator\<close>

lemma splitDot_nonempty: "splitDot s \<noteq> []"
  by (induction s) (auto split: list.splits)

lemma olderComponents_irrefl: "\<not> olderComponents xs xs"
  by (induction xs) auto

lemma olderComponents_trans:
  "olderComponents xs ys \<Longrightarrow> olderComponents ys zs \<Longrightarrow> olderComponents xs zs"
proof (induction xs ys arbitrary: zs rule: olderComponents.induct)
  case (1 x xs y ys)
  then show ?case by (cases zs) (auto split: if_splits)
qed auto

lemma isOlderVersion_strictOrderOn: "strictOrderOn isOlderVersion S"
  unfolding strictOrderOn_def isOlderVersion_def
  by (auto simp: olderComponents_irrefl split: option.splits intro: olderComponents_trans)

lemmas version_eval =
  isOlderVersion_def parseComponent_def isDigit_def digitValue_def milestoneOf_def

lemma strictOrderOn_irrefl: "strictOrderOn older S \<Longrightarrow> a \<in> S \<Longrightarrow> \<not> older a a"
  by (simp add: strictOrderOn_def)

lemma strictOrderOn_trans:
  "strictOrderOn older S \<Longrightarrow> a \<in> S \<Longrightarrow> b \<in> S \<Longrightarrow> c \<in> S \<Longrightarrow>
     older a b \<Longrightarrow> older b c \<Longrightarrow> older a c"
  unfolding strictOrderOn_def by blast

lemma strictOrderOn_asym:
  "strictOrderOn older S \<Longrightarrow> a \<in> S \<Longrightarrow> b \<in> S \<Longrightarrow> older a b \<Longrightarrow> \<not> older b a"
  using strictOrderOn_irrefl strictOrderOn_trans by metis

lemma strictOrderOn_subset: "strictOrderOn older S \<Longrightarrow> T \<subseteq> S \<Longrightarrow> strictOrderOn older T"
  unfolding strictOrderOn_def by blast

text \<open>
  The comparator of the specification is total on well-formed versions of one length:
  two such versions with the same components are the same string.
\<close>

lemma joinDot_splitDot: "joinDot (splitDot v) = v"
proof (induction v)
  case Nil
  then show ?case by simp
next
  case (Cons c cs)
  obtain w ws where s: "splitDot cs = w # ws"
    using splitDot_nonempty [of cs] by (cases "splitDot cs") auto
  with Cons show ?case by (cases ws) auto
qed

lemma splitDot_inject: "splitDot a = splitDot b \<Longrightarrow> a = b"
  by (metis joinDot_splitDot)

lemma isDigit_range: "isDigit c \<Longrightarrow> 48 \<le> (of_char c :: nat) \<and> (of_char c :: nat) \<le> 57"
  by (auto simp: isDigit_def)

lemma digitValue_less: "isDigit c \<Longrightarrow> digitValue c < 10"
  using isDigit_range [of c] unfolding digitValue_def by linarith

lemma digitValue_inject:
  assumes "isDigit c" "isDigit d" "digitValue c = digitValue d"
  shows "c = d"
proof -
  from assms isDigit_range [of c] isDigit_range [of d]
  have "(of_char c :: nat) = of_char d" unfolding digitValue_def by linarith
  then show ?thesis by simp
qed

lemma digitValue_zero: "isDigit c \<Longrightarrow> digitValue c = 0 \<Longrightarrow> c = CHR ''0''"
proof -
  assume a: "isDigit c" "digitValue c = 0"
  have "isDigit CHR ''0''" "digitValue CHR ''0'' = 0"
    by (simp_all add: isDigit_def digitValue_def)
  with a show ?thesis by (metis digitValue_inject)
qed

lemma foldl_decimal:
  "foldl (\<lambda>n c. 10 * n + digitValue c) a s = a * 10 ^ length s + decimal s"
proof (induction s rule: rev_induct)
  case Nil
  then show ?case by simp
next
  case (snoc c s)
  then show ?case by (simp add: algebra_simps)
qed

lemma decimal_Cons:
  "foldl (\<lambda>n c. 10 * n + digitValue c) (digitValue c) s
     = digitValue c * 10 ^ length s + decimal s"
  by (rule foldl_decimal)

lemma decimal_less: "list_all isDigit s \<Longrightarrow> decimal s < 10 ^ length s"
proof (induction s)
  case Nil
  then show ?case by simp
next
  case (Cons c s)
  then have "digitValue c \<le> 9" "decimal s < 10 ^ length s"
    using digitValue_less [of c] by simp_all
  then have "digitValue c * 10 ^ length s + decimal s < 9 * 10 ^ length s + 10 ^ length s"
    by (meson add_le_less_mono mult_le_mono1)
  then show ?case by (simp add: decimal_Cons)
qed

lemma decimal_inject_same_length:
  "length s = length t \<Longrightarrow> list_all isDigit s \<Longrightarrow> list_all isDigit t \<Longrightarrow>
     decimal s = decimal t \<Longrightarrow> s = t"
proof (induction s t rule: list_induct2)
  case Nil
  then show ?case by simp
next
  case (Cons c s d t)
  let ?p = "(10::nat) ^ length s"
  from Cons.prems have ds: "decimal s < ?p" and dt: "decimal t < ?p"
    using decimal_less [of s] decimal_less [of t] Cons.hyps by simp_all
  from Cons.prems(3) Cons.hyps
  have eq: "digitValue c * ?p + decimal s = digitValue d * ?p + decimal t"
    by (simp add: decimal_Cons)
  have "(digitValue c * ?p + decimal s) div ?p = digitValue c"
    "(digitValue d * ?p + decimal t) div ?p = digitValue d"
    using ds dt by simp_all
  with eq have dv: "digitValue c = digitValue d" by simp
  with eq have "decimal s = decimal t" by simp
  with Cons have "s = t" by simp
  moreover from dv Cons.prems have "c = d" by (auto intro: digitValue_inject)
  ultimately show ?case by simp
qed

lemma decimal_lower:
  assumes "canonical s" and "s \<noteq> ''0''"
  shows "10 ^ (length s - 1) \<le> decimal s"
proof -
  from assms obtain c t where s: "s = c # t" and c: "isDigit c" "c \<noteq> CHR ''0''"
    by (cases s) (auto simp: canonical_def)
  from c have "1 \<le> digitValue c"
    using digitValue_zero [of c] by (cases "digitValue c") auto
  then have "(10::nat) ^ length t \<le> digitValue c * 10 ^ length t"
    by (cases "digitValue c") simp_all
  then have "10 ^ length t \<le> digitValue c * 10 ^ length t + decimal t"
    by (rule trans_le_add1)
  then show ?thesis by (simp add: s decimal_Cons)
qed

lemma decimal_inject:
  assumes "canonical s" "canonical t" "decimal s = decimal t"
  shows "s = t"
proof -
  have shorter: False
    if a: "canonical x" "canonical y" "decimal x = decimal y" "length x < length y" for x y
  proof -
    from a(1,4) have "y \<noteq> ''0''" by (auto simp: canonical_def)
    from decimal_lower [OF a(2) this] have "10 ^ (length y - 1) \<le> decimal y" .
    moreover from a(1) have "decimal x < 10 ^ length x"
      by (simp add: canonical_def decimal_less)
    moreover from a(4) have "(10::nat) ^ length x \<le> 10 ^ (length y - 1)"
      by (intro power_increasing) simp_all
    ultimately show False using a(3) by linarith
  qed
  have "\<not> length s < length t" using shorter [of s t] assms by blast
  moreover have "\<not> length t < length s" using shorter [of t s] assms by auto
  ultimately have "length s = length t" by simp
  with assms show ?thesis
    by (auto simp: canonical_def intro: decimal_inject_same_length)
qed

lemma parseComponent_canonical: "canonical s \<Longrightarrow> parseComponent s = Some (decimal s)"
  by (simp add: parseComponent_def canonical_def)

lemma parseComponents_canonical:
  "list_all canonical ss \<Longrightarrow> parseComponents ss = Some (map decimal ss)"
  by (induction ss) (auto simp: parseComponent_canonical)

lemma map_decimal_inject:
  "length ss = length ts \<Longrightarrow> list_all canonical ss \<Longrightarrow> list_all canonical ts \<Longrightarrow>
     map decimal ss = map decimal ts \<Longrightarrow> ss = ts"
  by (induction ss ts rule: list_induct2) (auto intro: decimal_inject)

lemma olderComponents_total:
  "length xs = length ys \<Longrightarrow> xs \<noteq> ys \<Longrightarrow> olderComponents xs ys \<or> olderComponents ys xs"
  by (induction xs ys rule: list_induct2) auto

lemma isOlderVersion_total:
  assumes "\<forall>v\<in>S. validVersion n v"
  shows "totalOn isOlderVersion S"
  unfolding totalOn_def
proof (intro ballI impI)
  fix a b assume a: "a \<in> S" and b: "b \<in> S" and ne: "a \<noteq> b"
  let ?as = "splitDot a" and ?bs = "splitDot b"
  from assms a b have v: "length ?as = n" "list_all canonical ?as"
    "length ?bs = n" "list_all canonical ?bs"
    by (simp_all add: validVersion_def)
  from ne have "?as \<noteq> ?bs" using splitDot_inject by blast
  with v have "map decimal ?as \<noteq> map decimal ?bs"
    using map_decimal_inject [of ?as ?bs] by auto
  moreover have "length (map decimal ?as) = length (map decimal ?bs)" using v by simp
  ultimately have "olderComponents (map decimal ?as) (map decimal ?bs)
      \<or> olderComponents (map decimal ?bs) (map decimal ?as)"
    by (rule olderComponents_total [rotated])
  with v show "isOlderVersion a b \<or> isOlderVersion b a"
    by (simp add: isOlderVersion_def parseComponents_canonical)
qed


section \<open>Properties of updateLatestVersionsPerMilestone\<close>









section \<open>Properties of updateKnownGoodVersions\<close>

lemma mset_sortInsert: "mset (sortInsert cmp a bs) = add_mset a (mset bs)"
  by (induction bs) auto

lemma mset_arraySort: "mset (arraySort cmp as) = mset as"
  by (induction as) (auto simp: mset_sortInsert)

lemma set_arraySort: "set (arraySort cmp as) = set as"
  by (metis mset_arraySort set_mset_mset)

lemma occurrences_arraySort: "occurrences v (arraySort cmp es) = occurrences v es"
proof -
  have "mset (filter (\<lambda>e. version e = v) (arraySort cmp es))
      = mset (filter (\<lambda>e. version e = v) es)"
    by (simp add: mset_arraySort)
  then show ?thesis unfolding occurrences_def by (metis size_mset)
qed

lemma distinct_arraySort:
  "distinct (map version (arraySort cmp es)) \<longleftrightarrow> distinct (map version es)"
proof -
  have "mset (map version (arraySort cmp es)) = mset (map version es)"
    by (simp add: mset_arraySort)
  then show ?thesis by (rule mset_eq_imp_distinct_iff)
qed

lemma ascending_sortInsert:
  "strictOrderOn older (version ` set (a # bs)) \<Longrightarrow>
   totalOn older (version ` set (a # bs)) \<Longrightarrow> sorted_wrt (inOrder older) bs \<Longrightarrow>
     sorted_wrt (inOrder older) (sortInsert (compareEntries older) a bs)"
proof (induction bs)
  case Nil
  then show ?case by simp
next
  case (Cons b bs)
  let ?S = "version ` set (a # b # bs)"
  note so = Cons.prems(1)
  have aS: "version a \<in> ?S" and bS: "version b \<in> ?S" by simp_all
  show ?case
  proof (cases "compareEntries older a b \<le> 0")
    case True
    then have ab: "older (version a) (version b) \<or> version a = version b"
      by (auto simp: compareEntries_def split: if_splits)
    then have 1: "inOrder older a b"
      unfolding inOrder_def
      using strictOrderOn_irrefl [OF so bS] strictOrderOn_asym [OF so aS bS] by auto
    have "inOrder older a c" if "c \<in> set bs" for c
    proof -
      from that have cS: "version c \<in> ?S" by simp
      from Cons.prems(3) that have bc: "inOrder older b c" by simp
      from ab show ?thesis
      proof
        assume "version a = version b"
        with bc show ?thesis by (simp add: inOrder_def)
      next
        assume o: "older (version a) (version b)"
        from bc have "version b = version c \<or> older (version b) (version c)"
          by (simp add: inOrder_def)
        with o have ac: "older (version a) (version c)"
          using strictOrderOn_trans [OF so aS bS cS] by auto
        with strictOrderOn_asym [OF so aS cS] show ?thesis by (simp add: inOrder_def)
      qed
    qed
    with 1 True Cons.prems(3) show ?thesis by simp
  next
    case False
    then have nab: "\<not> older (version a) (version b)" "version a \<noteq> version b"
      by (auto simp: compareEntries_def split: if_splits)
    with Cons.prems(2) have ba: "older (version b) (version a)"
      unfolding totalOn_def by auto
    have so': "strictOrderOn older (version ` set (a # bs))"
      by (rule strictOrderOn_subset [OF so]) auto
    have tot': "totalOn older (version ` set (a # bs))"
      using Cons.prems(2) unfolding totalOn_def by auto
    have asc': "sorted_wrt (inOrder older) bs" using Cons.prems(3) by simp
    have "inOrder older b c" if "c \<in> set (sortInsert (compareEntries older) a bs)" for c
    proof -
      from that have "c = a \<or> c \<in> set bs"
        by (metis mset_sortInsert set_mset_mset set_mset_add_mset_insert insert_iff)
      then show ?thesis
      proof
        assume "c = a" with ba nab show ?thesis unfolding inOrder_def by simp
      next
        assume "c \<in> set bs" with Cons.prems(3) show ?thesis by simp
      qed
    qed
    with Cons.IH [OF so' tot' asc'] False show ?thesis by simp
  qed
qed

lemma ascending_arraySort:
  "strictOrderOn older (version ` set es) \<Longrightarrow> totalOn older (version ` set es) \<Longrightarrow>
     sorted_wrt (inOrder older) (arraySort (compareEntries older) es)"
proof (induction es)
  case Nil
  then show ?case by simp
next
  case (Cons a es)
  have s1: "strictOrderOn older (version ` set es)"
    by (rule strictOrderOn_subset [OF Cons.prems(1)]) auto
  from Cons.prems(2) have t1: "totalOn older (version ` set es)"
    unfolding totalOn_def by auto
  from Cons.prems(1)
  have s2: "strictOrderOn older (version ` set (a # arraySort (compareEntries older) es))"
    by (simp add: set_arraySort)
  from Cons.prems(2)
  have t2: "totalOn older (version ` set (a # arraySort (compareEntries older) es))"
    by (simp add: set_arraySort)
  from ascending_sortInsert [OF s2 t2 Cons.IH [OF s1 t1]] show ?case by simp
qed

lemma occurrences_append [simp]:
  "occurrences v (xs @ ys) = occurrences v xs + occurrences v ys"
  by (simp add: occurrences_def)

lemma occurrences_zero: "v \<notin> version ` set es \<Longrightarrow> occurrences v es = 0"
  by (auto simp: occurrences_def filter_empty_conv)

lemma mergeEntry_cases:
  assumes "mergeEntry now c (seen, vs, stamp, t) = (seen1, vs1, stamp1, t1)"
  shows "(version c \<in> seen \<and> seen1 = seen \<and> vs1 = vs \<and> stamp1 = stamp \<and> t1 = t)
       \<or> (version c \<notin> seen \<and> seen1 = insert (version c) seen
           \<and> vs1 = vs @ [\<lparr>version = version c, revision = revision c\<rparr>]
           \<and> stamp1 = now t \<and> t1 = Suc t)"
  using assms by (auto simp: mergeEntry_def createTimestamp_def split: if_splits)

lemma mergeEntries_inv:
  "mergeEntries now cs (seen, vs, stamp, t) = (seen', vs', stamp', t') \<Longrightarrow>
   seen = version ` set vs \<Longrightarrow>
     seen' = version ` set vs'
     \<and> version ` set vs' = seen \<union> version ` set cs
     \<and> (distinct (map version vs) \<longrightarrow> distinct (map version vs'))
     \<and> (\<forall>v. occurrences v vs' =
           (if v \<in> seen then occurrences v vs
            else if v \<in> version ` set cs then 1 else 0))"
proof (induction cs arbitrary: seen vs stamp t)
  case Nil
  then show ?case by (auto simp: occurrences_zero)
next
  case (Cons c cs)
  obtain seen1 vs1 stamp1 t1 where
    s: "mergeEntry now c (seen, vs, stamp, t) = (seen1, vs1, stamp1, t1)"
    by (cases "mergeEntry now c (seen, vs, stamp, t)") auto
  with Cons.prems(1) have r: "mergeEntries now cs (seen1, vs1, stamp1, t1)
      = (seen', vs', stamp', t')" by simp
  from mergeEntry_cases [OF s] show ?case
  proof
    assume a: "version c \<in> seen \<and> seen1 = seen \<and> vs1 = vs \<and> stamp1 = stamp \<and> t1 = t"
    with Cons.prems(2) have "seen1 = version ` set vs1" by simp
    from Cons.IH [OF r this] a show ?thesis by auto
  next
    assume a: "version c \<notin> seen \<and> seen1 = insert (version c) seen
           \<and> vs1 = vs @ [\<lparr>version = version c, revision = revision c\<rparr>]
           \<and> stamp1 = now t \<and> t1 = Suc t"
    with Cons.prems(2) have i: "seen1 = version ` set vs1" by auto
    note ih = Cons.IH [OF r i]
    from a Cons.prems(2) have z: "occurrences (version c) vs = 0"
      by (simp add: occurrences_zero)
    have d: "distinct (map version vs) \<longrightarrow> distinct (map version vs1)"
      using a Cons.prems(2) by auto
    have o: "occurrences v vs1 = (if v = version c then 1 else occurrences v vs)" for v
      using a z by (auto simp: occurrences_def)
    from ih a d o show ?thesis by auto
  qed
qed

lemma updateKnownGoodVersions_run:
  "updateKnownGoodVersions older now (cat, t) reg = (cat', t') \<Longrightarrow>
     \<exists>seen vs stamp.
        mergeEntries now (map snd (channels reg))
          (version ` set (versions cat), versions cat, timestamp cat, t)
          = (seen, vs, stamp, t')
        \<and> versions cat' = arraySort (compareEntries older) vs"
  by (auto simp: updateKnownGoodVersions_def Let_def split: prod.splits)

text \<open>
  Claim C2: after \<open>updateKnownGoodVersions\<close> the catalog has no duplicate version
  and is sorted. A version of the catalog occurs after the merge as often as before
  (nothing is appended for it), a version that only the registry carries occurs once,
  and no other version occurs; so a catalog without duplicates, as the data model has
  it, stays without duplicates. When the comparator is a strict order that is total on
  the versions of the catalog and of the registry, the merged catalog is ascending.
\<close>

theorem catalog_unique_and_sorted:
  assumes "updateKnownGoodVersions older now (cat, t) reg = (cat', t')"
  shows "(\<forall>v. occurrences v (versions cat') =
            (if v \<in> version ` set (versions cat) then occurrences v (versions cat)
             else if v \<in> version ` snd ` set (channels reg) then 1 else 0))
       \<and> (distinct (map version (versions cat)) \<longrightarrow> distinct (map version (versions cat')))
       \<and> (strictOrderOn older
              (version ` set (versions cat) \<union> version ` snd ` set (channels reg))
            \<and> totalOn older (version ` set (versions cat) \<union> version ` snd ` set (channels reg))
          \<longrightarrow> ascending older (versions cat'))"
proof -
  from updateKnownGoodVersions_run [OF assms] obtain seen vs stamp where
    run: "mergeEntries now (map snd (channels reg))
          (version ` set (versions cat), versions cat, timestamp cat, t)
          = (seen, vs, stamp, t')"
    and srt: "versions cat' = arraySort (compareEntries older) vs" by blast
  note inv = mergeEntries_inv [OF run refl]
  have 1: "\<forall>v. occurrences v (versions cat') =
            (if v \<in> version ` set (versions cat) then occurrences v (versions cat)
             else if v \<in> version ` snd ` set (channels reg) then 1 else 0)"
    using inv by (simp add: srt occurrences_arraySort image_image)
  have 2: "distinct (map version (versions cat)) \<longrightarrow> distinct (map version (versions cat'))"
    using inv by (simp add: srt distinct_arraySort)
  have 3: "ascending older (versions cat')"
    if "strictOrderOn older
          (version ` set (versions cat) \<union> version ` snd ` set (channels reg))"
      and "totalOn older
          (version ` set (versions cat) \<union> version ` snd ` set (channels reg))"
  proof -
    from inv have "version ` set vs
        = version ` set (versions cat) \<union> version ` snd ` set (channels reg)"
      by (simp add: image_image)
    with that have "strictOrderOn older (version ` set vs)"
      and "totalOn older (version ` set vs)" by simp_all
    from ascending_arraySort [OF this] show ?thesis
      by (simp add: ascending_def srt)
  qed
  from 1 2 3 show ?thesis by blast
qed

lemma sample_catalog_run:
  "updateKnownGoodVersions isOlderVersion sampleClock (sampleCatalog, 3) sampleChannels
     = (sampleCatalogMerged, 5)"
  by (simp add: updateKnownGoodVersions_def mergeEntry_def compareEntries_def
      sampleCatalog_def sampleChannels_def sampleCatalogMerged_def
      createTimestamp_def version_eval Let_def)

lemma sample_catalog_total:
  "totalOn isOlderVersion
     (version ` set (versions sampleCatalog) \<union> version ` snd ` set (channels sampleChannels))"
  by (simp add: totalOn_def sampleCatalog_def sampleChannels_def version_eval)

theorem catalog_unique_and_sorted_witness:
  "updateKnownGoodVersions isOlderVersion sampleClock (sampleCatalog, 3) sampleChannels
     = (sampleCatalogMerged, 5)
   \<and> strictOrderOn isOlderVersion
       (version ` set (versions sampleCatalog) \<union> version ` snd ` set (channels sampleChannels))
   \<and> totalOn isOlderVersion
       (version ` set (versions sampleCatalog) \<union> version ` snd ` set (channels sampleChannels))
   \<and> distinct (map version (versions sampleCatalog))
   \<and> distinct (map version (versions sampleCatalogMerged))
   \<and> ascending isOlderVersion (versions sampleCatalogMerged)
   \<and> occurrences ''115.0.5790.3'' (versions sampleCatalog) = 1
   \<and> occurrences ''115.0.5790.3'' (versions sampleCatalogMerged) = 1
   \<and> occurrences ''116.0.5845.4'' (versions sampleCatalog) = 0
   \<and> occurrences ''116.0.5845.4'' (versions sampleCatalogMerged) = 1"
proof -
  have d: "distinct (map version (versions sampleCatalog))"
    by (simp add: sampleCatalog_def)
  from catalog_unique_and_sorted [OF sample_catalog_run] d
    isOlderVersion_strictOrderOn sample_catalog_total
  have "distinct (map version (versions sampleCatalogMerged))"
    and "ascending isOlderVersion (versions sampleCatalogMerged)"
    by blast+
  with d isOlderVersion_strictOrderOn sample_catalog_total sample_catalog_run
  show ?thesis
    by (simp add: occurrences_def sampleCatalog_def sampleCatalogMerged_def)
qed

section \<open>Properties of prepareLatestPatchVersionsPerBuild\<close>

lemma example_reduction:
  "map_sum id (map (\<lambda>(p, e). (p, version e)) \<circ> builds)
     (prepareLatestPatchVersionsPerBuild isOlderVersion exampleCatalog)
   = Inr [(''120.0.1'', ''120.0.1.5''), (''121.0.2'', ''121.0.2.1'')]"
  by (simp add: prepareLatestPatchVersionsPerBuild_def reduceEntry_def reExec_def
      exampleCatalog_def version_eval isLineTerminator_def Let_def)

lemma reExec_shape:
  assumes "reExec v = Some (b, p)" and "\<not> (\<exists>c\<in>set v. isLineTerminator c)"
  shows "v = b @ ''.'' @ p \<and> p \<noteq> [] \<and> list_all isDigit p"
proof -
  let ?P = "\<lambda>c. c \<noteq> CHR ''.''"
  from assms(1) have dot: "CHR ''.'' \<in> set v"
    and p: "p = rev (takeWhile ?P (rev v))" "p \<noteq> []" "list_all isDigit p"
    and b: "b = rev (takeWhile (\<lambda>c. \<not> isLineTerminator c)
               (rev (rev (drop 1 (dropWhile ?P (rev v))))))"
    by (auto simp: reExec_def Let_def split: if_splits)
  from dot have ne: "dropWhile ?P (rev v) \<noteq> []"
    by (simp add: dropWhile_eq_Nil_conv) 
  then have hd: "hd (dropWhile ?P (rev v)) = CHR ''.''"
    using hd_dropWhile [of ?P "rev v"] by simp
  from ne hd have dw: "dropWhile ?P (rev v) = CHR ''.'' # drop 1 (dropWhile ?P (rev v))"
    by (cases "dropWhile ?P (rev v)") auto
  have "\<forall>c\<in>set (drop 1 (dropWhile ?P (rev v))). \<not> isLineTerminator c"
    using assms(2) by (metis in_set_dropD set_dropWhileD set_rev)
  then have "takeWhile (\<lambda>c. \<not> isLineTerminator c) (drop 1 (dropWhile ?P (rev v)))
      = drop 1 (dropWhile ?P (rev v))"
    by (simp add: takeWhile_eq_all_conv)
  with b have b': "rev b = drop 1 (dropWhile ?P (rev v))" by simp
  have "rev v = takeWhile ?P (rev v) @ dropWhile ?P (rev v)" by simp
  also have "\<dots> = rev p @ CHR ''.'' # rev b"
    using dw b' p(1) by simp
  finally have "rev (rev v) = rev (rev p @ CHR ''.'' # rev b)" by simp
  then have "v = b @ ''.'' @ p" by simp
  with p show ?thesis by simp
qed

lemma totalOn_cases:
  "totalOn older S \<Longrightarrow> a \<in> S \<Longrightarrow> b \<in> S \<Longrightarrow> a = b \<or> older a b \<or> older b a"
  unfolding totalOn_def by blast

lemma totalOn_subset: "totalOn older S \<Longrightarrow> T \<subseteq> S \<Longrightarrow> totalOn older T"
  unfolding totalOn_def by blast

lemma latestOf_member: "latestOf older es p e \<Longrightarrow> e \<in> set es \<and> buildOf e = Some p"
  unfolding latestOf_def by auto

text \<open>An entry of another build, or one that is not newer, leaves the latest in place.\<close>

lemma latestOf_snoc_keep:
  assumes "latestOf older ps q e"
    and "buildOf n = Some q \<longrightarrow> \<not> older (version e) (version n)"
  shows "latestOf older (ps @ [n]) q e"
proof -
  from assms(1) obtain xs ys where d: "ps = xs @ e # ys" "buildOf e = Some q"
    "\<forall>x\<in>set xs. buildOf x = Some q \<longrightarrow> older (version x) (version e)"
    "\<forall>y\<in>set ys. buildOf y = Some q \<longrightarrow> \<not> older (version e) (version y)"
    unfolding latestOf_def by blast
  have "ps @ [n] = xs @ e # (ys @ [n])" using d(1) by simp
  moreover have "\<forall>y\<in>set (ys @ [n]). buildOf y = Some q \<longrightarrow> \<not> older (version e) (version y)"
    using d(4) assms(2) by auto
  ultimately show ?thesis unfolding latestOf_def using d(2,3) by blast
qed

text \<open>A strictly newer entry of the same build becomes the latest.\<close>

lemma latestOf_snoc_newer:
  assumes so: "strictOrderOn older (version ` set (ps @ [n]))"
    and tot: "totalOn older (version ` set (ps @ [n]))"
    and k: "latestOf older ps p k" and new: "older (version k) (version n)"
    and bn: "buildOf n = Some p"
  shows "latestOf older (ps @ [n]) p n"
proof -
  from k obtain xs ys where d: "ps = xs @ k # ys"
    "\<forall>x\<in>set xs. buildOf x = Some p \<longrightarrow> older (version x) (version k)"
    "\<forall>y\<in>set ys. buildOf y = Some p \<longrightarrow> \<not> older (version k) (version y)"
    unfolding latestOf_def by blast
  have "older (version x) (version n)" if x: "x \<in> set ps" "buildOf x = Some p" for x
  proof -
    have mem: "version x \<in> version ` set (ps @ [n])" "version k \<in> version ` set (ps @ [n])"
      "version n \<in> version ` set (ps @ [n])"
      using x(1) d(1) by auto
    note tr = strictOrderOn_trans [OF so mem]
    from x(1) d(1) consider "x \<in> set xs" | "x = k" | "x \<in> set ys" by auto
    then show ?thesis
    proof cases
      case 1
      with d(2) x(2) have "older (version x) (version k)" by blast
      from this new show ?thesis by (rule tr)
    next
      case 2
      with new show ?thesis by simp
    next
      case 3
      with d(3) x(2) have nk: "\<not> older (version k) (version x)" by blast
      from totalOn_cases [OF tot mem(1,2)] nk
      have "version x = version k \<or> older (version x) (version k)" by blast
      then show ?thesis
      proof
        assume "version x = version k"
        with new show ?thesis by simp
      next
        assume "older (version x) (version k)"
        from this new show ?thesis by (rule tr)
      qed
    qed
  qed
  then have "\<forall>x\<in>set ps. buildOf x = Some p \<longrightarrow> older (version x) (version n)" by blast
  moreover have "ps @ [n] = ps @ n # []" by simp
  ultimately show ?thesis unfolding latestOf_def using bn
    by (metis empty_iff empty_set)
qed

text \<open>The first entry of a build is its latest.\<close>

lemma latestOf_snoc_first:
  assumes "\<forall>x\<in>set ps. buildOf x \<noteq> Some p" and "buildOf n = Some p"
  shows "latestOf older (ps @ [n]) p n"
proof -
  have "ps @ [n] = ps @ n # []" by simp
  moreover have "\<forall>x\<in>set ps. buildOf x = Some p \<longrightarrow> older (version x) (version n)"
    using assms(1) by blast
  ultimately show ?thesis unfolding latestOf_def using assms(2)
    by (metis empty_iff empty_set)
qed

lemma keys_update: "fst ` set (AList.update k v al) = insert k (fst ` set al)"
  by (induction al) auto

lemma reduceEntry_cases:
  assumes "reduceEntry older n m = Inr m'"
  obtains p k where "buildOf n = Some p" "map_of m p = Some k"
      "older (version k) (version n)" "m' = AList.update p n m"
    | p k where "buildOf n = Some p" "map_of m p = Some k"
      "\<not> older (version k) (version n)" "m' = m"
    | p where "buildOf n = Some p" "map_of m p = None" "m' = AList.update p n m"
proof (cases "reExec (version n)")
  case None
  with assms show ?thesis by (simp add: reduceEntry_def)
next
  case (Some bp)
  obtain p q where bp: "bp = (p, q)" by (cases bp)
  with Some have b: "buildOf n = Some p" by (simp add: buildOf_def)
  show ?thesis
  proof (cases "map_of m p")
    case None
    with assms Some bp have "m' = AList.update p n m" by (simp add: reduceEntry_def)
    with b None that(3) show ?thesis by blast
  next
    case (Some k)
    show ?thesis
    proof (cases "older (version k) (version n)")
      case True
      with assms \<open>reExec (version n) = Some bp\<close> bp Some
      have "m' = AList.update p n m" by (simp add: reduceEntry_def)
      with b Some True that(1) show ?thesis by blast
    next
      case False
      with assms \<open>reExec (version n) = Some bp\<close> bp Some
      have "m' = m" by (simp add: reduceEntry_def)
      with b Some False that(2) show ?thesis by blast
    qed
  qed
qed

lemma reduceEntry_reduced:
  assumes so: "strictOrderOn older (version ` set (ps @ [n]))"
    and tot: "totalOn older (version ` set (ps @ [n]))"
    and inv: "reduced older ps m" and step: "reduceEntry older n m = Inr m'"
  shows "reduced older (ps @ [n]) m'"
proof -
  from inv have dist: "distinct (map fst m)"
    and cov: "\<forall>x\<in>set ps. \<exists>p. buildOf x = Some p \<and> p \<in> fst ` set m"
    and lat: "\<And>p e. map_of m p = Some e \<Longrightarrow> latestOf older ps p e"
    unfolding reduced_def by blast+
  from step show ?thesis
  proof (cases rule: reduceEntry_cases)
    case (1 p k)
    have "latestOf older (ps @ [n]) q e" if "map_of m' q = Some e" for q e
    proof (cases "q = p")
      case True
      with that 1(4) have "e = n" by (simp add: update_conv')
      with True latestOf_snoc_newer [OF so tot lat [OF 1(2)] 1(3) 1(1)] show ?thesis by simp
    next
      case False
      with that 1(4) have "map_of m q = Some e" by (simp add: update_conv')
      from latestOf_snoc_keep [OF lat [OF this]] False 1(1) show ?thesis by simp
    qed
    moreover have "\<forall>x\<in>set (ps @ [n]). \<exists>p. buildOf x = Some p \<and> p \<in> fst ` set m'"
      using cov 1(1,4) by (auto simp: keys_update)
    ultimately show ?thesis unfolding reduced_def using dist 1(4)
      by (simp add: distinct_update)
  next
    case (2 p k)
    have "latestOf older (ps @ [n]) q e" if "map_of m' q = Some e" for q e
    proof -
      from that 2(4) have mq: "map_of m q = Some e" by simp
      have "buildOf n = Some q \<longrightarrow> \<not> older (version e) (version n)"
        using 2(1,2,3) mq by auto
      from latestOf_snoc_keep [OF lat [OF mq] this] show ?thesis .
    qed
    moreover have "p \<in> fst ` set m" using 2(2) by (metis map_of_SomeD fst_conv image_eqI)
    then have "\<forall>x\<in>set (ps @ [n]). \<exists>p. buildOf x = Some p \<and> p \<in> fst ` set m'"
      using cov 2(1,4) by auto
    ultimately show ?thesis unfolding reduced_def using dist 2(4) by simp
  next
    case (3 p)
    from 3(2) have "p \<notin> fst ` set m" by (simp add: map_of_eq_None_iff)
    have none: "\<forall>x\<in>set ps. buildOf x \<noteq> Some p"
    proof
      fix x assume "x \<in> set ps"
      with cov obtain q where "buildOf x = Some q" "q \<in> fst ` set m" by blast
      with \<open>p \<notin> fst ` set m\<close> show "buildOf x \<noteq> Some p" by auto
    qed
    have "latestOf older (ps @ [n]) q e" if "map_of m' q = Some e" for q e
    proof (cases "q = p")
      case True
      with that 3(3) have "e = n" by (simp add: update_conv')
      with True latestOf_snoc_first [OF none 3(1)] show ?thesis by simp
    next
      case False
      with that 3(3) have "map_of m q = Some e" by (simp add: update_conv')
      from latestOf_snoc_keep [OF lat [OF this]] False 3(1) show ?thesis by simp
    qed
    moreover have "\<forall>x\<in>set (ps @ [n]). \<exists>p. buildOf x = Some p \<and> p \<in> fst ` set m'"
      using cov 3(1,3) by (auto simp: keys_update)
    ultimately show ?thesis unfolding reduced_def using dist 3(3)
      by (simp add: distinct_update)
  qed
qed

lemma reduceEntries_reduced:
  "reduceEntries older es m = Inr m' \<Longrightarrow> reduced older ps m \<Longrightarrow>
   strictOrderOn older (version ` set (ps @ es)) \<Longrightarrow>
   totalOn older (version ` set (ps @ es)) \<Longrightarrow> reduced older (ps @ es) m'"
proof (induction es arbitrary: ps m)
  case Nil
  then show ?case by simp
next
  case (Cons n es)
  from Cons.prems(1) obtain m1 where s: "reduceEntry older n m = Inr m1"
    and r: "reduceEntries older es m1 = Inr m'"
    by (auto split: sum.splits)
  have s1: "strictOrderOn older (version ` set (ps @ [n]))"
    by (rule strictOrderOn_subset [OF Cons.prems(3)]) auto
  have t1: "totalOn older (version ` set (ps @ [n]))"
    by (rule totalOn_subset [OF Cons.prems(4)]) auto
  have s2: "strictOrderOn older (version ` set ((ps @ [n]) @ es))"
    using Cons.prems(3) by simp
  have t2: "totalOn older (version ` set ((ps @ [n]) @ es))"
    using Cons.prems(4) by simp
  from Cons.IH [OF r reduceEntry_reduced [OF s1 t1 Cons.prems(2) s] s2 t2]
  show ?case by simp
qed

lemma reduceEntry_returns:
  "reExec (version n) \<noteq> None \<Longrightarrow> \<exists>m1. reduceEntry older n m = Inr m1"
  by (cases "reExec (version n)")
     (auto simp: reduceEntry_def split: option.splits prod.splits)

lemma reduceEntries_returns:
  "\<forall>e\<in>set es. reExec (version e) \<noteq> None \<Longrightarrow> \<exists>m'. reduceEntries older es m = Inr m'"
proof (induction es arbitrary: m)
  case Nil
  then show ?case by simp
next
  case (Cons n es)
  from Cons.prems have "reExec (version n) \<noteq> None" by simp
  from reduceEntry_returns [OF this] obtain m1 where s: "reduceEntry older n m = Inr m1"
    by blast
  from Cons.prems have "\<forall>e\<in>set es. reExec (version e) \<noteq> None" by simp
  from Cons.IH [OF this, of m1] s show ?case by simp
qed

lemma reduceEntries_fails:
  "\<exists>e\<in>set es. reExec (version e) = None \<Longrightarrow> reduceEntries older es m = Inl TypeError"
proof (induction es arbitrary: m)
  case Nil
  then show ?case by simp
next
  case (Cons n es)
  show ?case
  proof (cases "reduceEntry older n m")
    case (Inl e)
    then show ?thesis by (cases e) simp
  next
    case (Inr m1)
    then have "reExec (version n) \<noteq> None"
      by (auto simp: reduceEntry_def split: option.splits)
    with Cons.prems have "\<exists>e\<in>set es. reExec (version e) = None" by auto
    from Cons.IH [OF this] Inr show ?thesis by simp
  qed
qed

lemma fillBuilds_append:
  "distinct (map fst (bs @ m)) \<Longrightarrow> fillBuilds m bs = bs @ m"
proof (induction m arbitrary: bs)
  case Nil
  then show ?case by simp
next
  case (Cons a m)
  obtain k e where a: "a = (k, e)" by (cases a)
  from Cons.prems a have "k \<notin> fst ` set bs" by auto
  then have u: "AList.update k e bs = bs @ [(k, e)]"
    by (induction bs) auto
  from Cons.prems a have "distinct (map fst ((bs @ [(k, e)]) @ m))" by simp
  from Cons.IH [OF this] u a show ?case by simp
qed

lemma fillBuilds_distinct: "distinct (map fst m) \<Longrightarrow> fillBuilds m [] = m"
  using fillBuilds_append [of "[]" m] by simp

lemma prepareLatestPatchVersionsPerBuild_returns:
  assumes so: "strictOrderOn older (version ` set (versions cat))"
    and tot: "totalOn older (version ` set (versions cat))"
    and ok: "\<forall>e\<in>set (versions cat). reExec (version e) \<noteq> None"
  shows "\<exists>m. prepareLatestPatchVersionsPerBuild older cat
             = Inr \<lparr>timestamp = timestamp cat, builds = m\<rparr>
           \<and> reduced older (versions cat) m"
proof -
  from reduceEntries_returns [OF ok] obtain m where
    run: "reduceEntries older (versions cat) [] = Inr m" by blast
  have "reduced older [] []" by (simp add: reduced_def)
  from reduceEntries_reduced [OF run this] so tot
  have inv: "reduced older (versions cat) m" by simp
  then have "distinct (map fst m)" by (simp add: reduced_def)
  then have "fillBuilds m [] = m" by (rule fillBuilds_distinct)
  with run inv show ?thesis by (simp add: prepareLatestPatchVersionsPerBuild_def)
qed

lemma reduced_keys:
  assumes "reduced older es m"
  shows "fst ` set m = {p. \<exists>e\<in>set es. buildOf e = Some p}"
proof (intro set_eqI iffI)
  fix p assume "p \<in> fst ` set m"
  then obtain e where "map_of m p = Some e"
    by (cases "map_of m p") (auto simp: map_of_eq_None_iff)
  with assms have "latestOf older es p e" by (simp add: reduced_def)
  from latestOf_member [OF this] show "p \<in> {p. \<exists>e\<in>set es. buildOf e = Some p}" by blast
next
  fix p assume "p \<in> {p. \<exists>e\<in>set es. buildOf e = Some p}"
  then obtain e where "e \<in> set es" "buildOf e = Some p" by blast
  moreover from assms have "\<forall>x\<in>set es. \<exists>p. buildOf x = Some p \<and> p \<in> fst ` set m"
    by (simp add: reduced_def)
  ultimately obtain q where "buildOf e = Some q" "q \<in> fst ` set m" by blast
  with \<open>buildOf e = Some p\<close> show "p \<in> fst ` set m" by simp
qed

lemma buildOf_shape:
  assumes "buildOf e = Some p" and "\<not> (\<exists>c\<in>set (version e). isLineTerminator c)"
  shows "\<exists>patch. version e = p @ ''.'' @ patch \<and> patch \<noteq> [] \<and> list_all isDigit patch"
proof -
  from assms(1) obtain q where "reExec (version e) = Some (p, q)"
    by (auto simp: buildOf_def)
  from reExec_shape [OF this assms(2)] show ?thesis by blast
qed

text \<open>
  Claim C5: the reducer maps every build prefix to the latest entry of that build. For
  a comparator that is a strict total order on the versions of the catalog, and a
  catalog whose versions all end in a dot and a patch number,
  \<open>prepareLatestPatchVersionsPerBuild\<close> returns the timestamp of the catalog and one
  key for each build prefix of the catalog; the entry under a key is an entry of the
  catalog with that build prefix, strictly newer than the entries of the build in front
  of it and older than none behind it (the first one is kept on ties), and its version
  is the key, a dot and the patch digits. A version without patch number makes the
  function raise. On the catalog of the specification's example the result is
  \<open>120.0.1 \<mapsto> 120.0.1.5\<close>, \<open>121.0.2 \<mapsto> 121.0.2.1\<close>.
\<close>

theorem build_track_latest:
  "(strictOrderOn older (version ` set (versions cat))
      \<and> totalOn older (version ` set (versions cat))
      \<and> (\<forall>e\<in>set (versions cat). reExec (version e) \<noteq> None)
    \<longrightarrow> (\<exists>res. prepareLatestPatchVersionsPerBuild older cat = Inr res
           \<and> timestamp res = timestamp cat
           \<and> distinct (map fst (builds res))
           \<and> fst ` set (builds res) = {p. \<exists>e\<in>set (versions cat). buildOf e = Some p}
           \<and> (\<forall>p e. map_of (builds res) p = Some e
                 \<longrightarrow> latestOf older (versions cat) p e
                     \<and> (\<not> (\<exists>c\<in>set (version e). isLineTerminator c)
                          \<longrightarrow> (\<exists>patch. version e = p @ ''.'' @ patch \<and> patch \<noteq> []
                                 \<and> list_all isDigit patch)))))
   \<and> ((\<exists>e\<in>set (versions cat). reExec (version e) = None)
        \<longrightarrow> prepareLatestPatchVersionsPerBuild older cat = Inl TypeError)
   \<and> map_sum id (map (\<lambda>(p, e). (p, version e)) \<circ> builds)
       (prepareLatestPatchVersionsPerBuild isOlderVersion exampleCatalog)
     = Inr [(''120.0.1'', ''120.0.1.5''), (''121.0.2'', ''121.0.2.1'')]"
proof (intro conjI impI)
  assume a: "strictOrderOn older (version ` set (versions cat))
      \<and> totalOn older (version ` set (versions cat))
      \<and> (\<forall>e\<in>set (versions cat). reExec (version e) \<noteq> None)"
  then obtain m where
    run: "prepareLatestPatchVersionsPerBuild older cat
            = Inr \<lparr>timestamp = timestamp cat, builds = m\<rparr>"
    and inv: "reduced older (versions cat) m"
    using prepareLatestPatchVersionsPerBuild_returns by blast
  let ?res = "\<lparr>timestamp = timestamp cat, builds = m\<rparr>"
  have "latestOf older (versions cat) p e
        \<and> (\<not> (\<exists>c\<in>set (version e). isLineTerminator c)
             \<longrightarrow> (\<exists>patch. version e = p @ ''.'' @ patch \<and> patch \<noteq> []
                    \<and> list_all isDigit patch))"
    if "map_of (builds ?res) p = Some e" for p e
  proof -
    from that inv have l: "latestOf older (versions cat) p e" by (simp add: reduced_def)
    from latestOf_member [OF l] buildOf_shape [of e p] l show ?thesis by blast
  qed
  moreover have "distinct (map fst (builds ?res))" using inv by (simp add: reduced_def)
  moreover have "fst ` set (builds ?res) = {p. \<exists>e\<in>set (versions cat). buildOf e = Some p}"
    using reduced_keys [OF inv] by simp
  moreover have "timestamp ?res = timestamp cat" by simp
  ultimately show "\<exists>res. prepareLatestPatchVersionsPerBuild older cat = Inr res
           \<and> timestamp res = timestamp cat
           \<and> distinct (map fst (builds res))
           \<and> fst ` set (builds res) = {p. \<exists>e\<in>set (versions cat). buildOf e = Some p}
           \<and> (\<forall>p e. map_of (builds res) p = Some e
                 \<longrightarrow> latestOf older (versions cat) p e
                     \<and> (\<not> (\<exists>c\<in>set (version e). isLineTerminator c)
                          \<longrightarrow> (\<exists>patch. version e = p @ ''.'' @ patch \<and> patch \<noteq> []
                                 \<and> list_all isDigit patch)))"
    using run by blast
next
  assume "\<exists>e\<in>set (versions cat). reExec (version e) = None"
  from reduceEntries_fails [OF this]
  show "prepareLatestPatchVersionsPerBuild older cat = Inl TypeError"
    by (simp add: prepareLatestPatchVersionsPerBuild_def)
next
  show "map_sum id (map (\<lambda>(p, e). (p, version e)) \<circ> builds)
       (prepareLatestPatchVersionsPerBuild isOlderVersion exampleCatalog)
     = Inr [(''120.0.1'', ''120.0.1.5''), (''121.0.2'', ''121.0.2.1'')]"
    by (rule example_reduction)
qed

lemma example_run:
  "prepareLatestPatchVersionsPerBuild isOlderVersion exampleCatalog
     = Inr \<lparr>timestamp = ''2023-06-01T00:00:00.000Z'',
            builds = [(''120.0.1'', \<lparr>version = ''120.0.1.5'', revision = ''2''\<rparr>),
                      (''121.0.2'', \<lparr>version = ''121.0.2.1'', revision = ''3''\<rparr>)]\<rparr>"
  by (simp add: prepareLatestPatchVersionsPerBuild_def reduceEntry_def reExec_def
      exampleCatalog_def version_eval isLineTerminator_def Let_def)

theorem build_track_latest_witness:
  "strictOrderOn isOlderVersion (version ` set (versions exampleCatalog))
   \<and> totalOn isOlderVersion (version ` set (versions exampleCatalog))
   \<and> \<not> (\<exists>e\<in>set (versions exampleCatalog). reExec (version e) = None)
   \<and> prepareLatestPatchVersionsPerBuild isOlderVersion exampleCatalog
     = Inr \<lparr>timestamp = ''2023-06-01T00:00:00.000Z'',
            builds = [(''120.0.1'', \<lparr>version = ''120.0.1.5'', revision = ''2''\<rparr>),
                      (''121.0.2'', \<lparr>version = ''121.0.2.1'', revision = ''3''\<rparr>)]\<rparr>
   \<and> latestOf isOlderVersion (versions exampleCatalog) ''120.0.1''
       \<lparr>version = ''120.0.1.5'', revision = ''2''\<rparr>
   \<and> ''120.0.1.5'' = ''120.0.1'' @ ''.'' @ ''5''"
proof -
  have t: "totalOn isOlderVersion (version ` set (versions exampleCatalog))"
    by (simp add: totalOn_def exampleCatalog_def version_eval)
  have m: "\<forall>e\<in>set (versions exampleCatalog). reExec (version e) \<noteq> None"
    by (simp add: exampleCatalog_def reExec_def isDigit_def Let_def)
  have h: "strictOrderOn isOlderVersion (version ` set (versions exampleCatalog))
      \<and> totalOn isOlderVersion (version ` set (versions exampleCatalog))
      \<and> (\<forall>e\<in>set (versions exampleCatalog). reExec (version e) \<noteq> None)"
    using isOlderVersion_strictOrderOn t m by (intro conjI)
  from build_track_latest [of isOlderVersion exampleCatalog, THEN conjunct1, THEN mp, OF h]
  obtain res where
    "prepareLatestPatchVersionsPerBuild isOlderVersion exampleCatalog = Inr res
           \<and> timestamp res = timestamp exampleCatalog
           \<and> distinct (map fst (builds res))
           \<and> fst ` set (builds res)
               = {p. \<exists>e\<in>set (versions exampleCatalog). buildOf e = Some p}
           \<and> (\<forall>p e. map_of (builds res) p = Some e
                 \<longrightarrow> latestOf isOlderVersion (versions exampleCatalog) p e
                     \<and> (\<not> (\<exists>c\<in>set (version e). isLineTerminator c)
                          \<longrightarrow> (\<exists>patch. version e = p @ ''.'' @ patch \<and> patch \<noteq> []
                                 \<and> list_all isDigit patch)))"
    by (rule exE)
  then have r: "prepareLatestPatchVersionsPerBuild isOlderVersion exampleCatalog = Inr res"
    and l: "\<And>p e. map_of (builds res) p = Some e
                 \<Longrightarrow> latestOf isOlderVersion (versions exampleCatalog) p e"
    by simp_all
  from r example_run have "res = \<lparr>timestamp = ''2023-06-01T00:00:00.000Z'',
            builds = [(''120.0.1'', \<lparr>version = ''120.0.1.5'', revision = ''2''\<rparr>),
                      (''121.0.2'', \<lparr>version = ''121.0.2.1'', revision = ''3''\<rparr>)]\<rparr>"
    by simp
  then have "map_of (builds res) ''120.0.1''
      = Some \<lparr>version = ''120.0.1.5'', revision = ''2''\<rparr>" by simp
  then have lat: "latestOf isOlderVersion (versions exampleCatalog) ''120.0.1''
       \<lparr>version = ''120.0.1.5'', revision = ''2''\<rparr>" by (rule l)
  have nm: "\<not> (\<exists>e\<in>set (versions exampleCatalog). reExec (version e) = None)"
    using m by blast
  from isOlderVersion_strictOrderOn t nm example_run lat show ?thesis
    by (intro conjI) simp_all
qed

section \<open>Properties of addDownloads\<close>

lemma keys_addBinary:
  "fst ` set (addBinary env v b ds) = fst ` set ds \<union> (if listed env v b then {b} else {})"
  by (auto simp: addBinary_def listed_def keys_update)

lemma keys_addBinaries:
  "fst ` set (addBinaries env v bs ds) = fst ` set ds \<union> {b \<in> set bs. listed env v b}"
  by (induction bs arbitrary: ds) (auto simp: keys_addBinary split: if_splits)

lemma memoFresh_lookup:
  "memoFresh L h memo \<Longrightarrow> map_of memo a = Some a' \<Longrightarrow> L \<le> a' \<and> a' < length h"
  unfolding memoFresh_def by (auto dest: map_of_SomeD)

lemma cloneRefs_fresh:
  "cloneRefs h memo coll = (h', memo', coll') \<Longrightarrow> L \<le> length h \<Longrightarrow> memoFresh L h memo \<Longrightarrow>
     (\<exists>ext. h' = h @ ext) \<and> memoFresh L h' memo' \<and> map fst coll' = map fst coll
     \<and> (\<forall>a'\<in>snd ` set coll'. L \<le> a' \<and> a' < length h')"
proof (induction coll arbitrary: h memo h' memo' coll')
  case Nil
  then show ?case by simp
next
  case (Cons x coll)
  obtain k a where x: "x = (k, a)" by (cases x)
  show ?case
  proof (cases "map_of memo a")
    case (Some a1)
    obtain h2 m2 r2 where rec: "cloneRefs h memo coll = (h2, m2, r2)"
      by (cases "cloneRefs h memo coll") auto
    with Cons.prems(1) x Some have res: "h' = h2" "memo' = m2" "coll' = (k, a1) # r2"
      by simp_all
    from Cons.IH [OF rec Cons.prems(2,3)] obtain ext where ih:
      "h2 = h @ ext" "memoFresh L h2 m2" "map fst r2 = map fst coll"
      "\<forall>a'\<in>snd ` set r2. L \<le> a' \<and> a' < length h2" by blast
    from memoFresh_lookup [OF Cons.prems(3) Some] ih(1)
    have "L \<le> a1 \<and> a1 < length h2" by simp
    with ih res x show ?thesis by auto
  next
    case None
    let ?h0 = "h @ [h ! a]" and ?m0 = "(a, length h) # memo"
    obtain h2 m2 r2 where rec: "cloneRefs ?h0 ?m0 coll = (h2, m2, r2)"
      by (cases "cloneRefs ?h0 ?m0 coll") auto
    with Cons.prems(1) x None have res: "h' = h2" "memo' = m2" "coll' = (k, length h) # r2"
      by (simp_all add: Let_def)
    have l0: "L \<le> length ?h0" using Cons.prems(2) by simp
    have f0: "memoFresh L ?h0 ?m0"
      using Cons.prems(2,3) unfolding memoFresh_def by auto
    from Cons.IH [OF rec l0 f0] obtain ext where ih:
      "h2 = ?h0 @ ext" "memoFresh L h2 m2" "map fst r2 = map fst coll"
      "\<forall>a'\<in>snd ` set r2. L \<le> a' \<and> a' < length h2" by blast
    from ih(1) have "h2 = h @ ([h ! a] @ ext)" by simp
    moreover from ih(1) Cons.prems(2) have "L \<le> length h \<and> length h < length h2" by simp
    ultimately show ?thesis using ih res x by auto
  qed
qed

lemma cloneCollections_fresh:
  "cloneCollections h memo colls = (h', memo', colls') \<Longrightarrow> L \<le> length h \<Longrightarrow>
   memoFresh L h memo \<Longrightarrow>
     (\<exists>ext. h' = h @ ext) \<and> memoFresh L h' memo' \<and> map fst colls' = map fst colls
     \<and> (\<forall>coll\<in>snd ` set colls'. \<forall>a'\<in>snd ` set coll. L \<le> a' \<and> a' < length h')"
proof (induction colls arbitrary: h memo h' memo' colls')
  case Nil
  then show ?case by simp
next
  case (Cons x colls)
  obtain name coll where x: "x = (name, coll)" by (cases x)
  obtain h1 m1 c1 where one: "cloneRefs h memo coll = (h1, m1, c1)"
    by (cases "cloneRefs h memo coll") auto
  obtain h2 m2 r2 where rec: "cloneCollections h1 m1 colls = (h2, m2, r2)"
    by (cases "cloneCollections h1 m1 colls") auto
  from Cons.prems(1) x one rec have res: "h' = h2" "memo' = m2" "colls' = (name, c1) # r2"
    by simp_all
  from cloneRefs_fresh [OF one Cons.prems(2,3)] obtain e1 where c:
    "h1 = h @ e1" "memoFresh L h1 m1" "map fst c1 = map fst coll"
    "\<forall>a'\<in>snd ` set c1. L \<le> a' \<and> a' < length h1" by blast
  have l1: "L \<le> length h1" using c(1) Cons.prems(2) by simp
  from Cons.IH [OF rec l1 c(2)] obtain e2 where ih:
    "h2 = h1 @ e2" "memoFresh L h2 m2" "map fst r2 = map fst colls"
    "\<forall>coll\<in>snd ` set r2. \<forall>a'\<in>snd ` set coll. L \<le> a' \<and> a' < length h2" by blast
  have "h2 = h @ (e1 @ e2)" using c(1) ih(1) by simp
  moreover have "\<forall>a'\<in>snd ` set c1. L \<le> a' \<and> a' < length h2"
    using c(4) ih(1) by auto
  ultimately show ?case using ih res x by auto
qed

lemma structuredClone_fresh:
  assumes "structuredClone h data = (h1, copy)"
  shows "(\<exists>ext. h1 = h @ ext) \<and> timestamp copy = timestamp data
     \<and> map fst (collections copy) = map fst (collections data)
     \<and> (\<forall>coll\<in>snd ` set (collections copy). \<forall>a'\<in>snd ` set coll.
           length h \<le> a' \<and> a' < length h1)"
proof -
  obtain h' m' cs where c: "cloneCollections h [] (collections data) = (h', m', cs)"
    by (cases "cloneCollections h [] (collections data)") auto
  with assms have r: "h1 = h'" "copy = data\<lparr>collections := cs\<rparr>"
    by (simp_all add: structuredClone_def)
  have "memoFresh (length h) h []" by (simp add: memoFresh_def)
  from cloneCollections_fresh [OF c le_refl this] r show ?thesis by simp
qed

lemma length_expandRecords [simp]: "length (expandRecords env as h) = length h"
  by (induction as arbitrary: h) (auto simp: expandRecord_def)

lemma expandRecords_other: "b \<notin> set as \<Longrightarrow> expandRecords env as h ! b = h ! b"
  by (induction as arbitrary: h) (auto simp: expandRecord_def)

lemma expandRecords_frame:
  "\<forall>a\<in>set as. L \<le> a \<Longrightarrow> take L (expandRecords env as h) = take L h"
  by (induction as arbitrary: h) (auto simp: expandRecord_def)

lemma expandRecord_keeps:
  "(expandRecord env a h ! b)\<lparr>downloads := None\<rparr> = (h ! b)\<lparr>downloads := None\<rparr>"
proof (cases "a < length h")
  case True
  then show ?thesis by (cases "b = a") (simp_all add: expandRecord_def)
next
  case False
  then show ?thesis by (simp add: expandRecord_def list_update_beyond)
qed

lemma expandRecords_keeps:
  "(expandRecords env as h ! b)\<lparr>downloads := None\<rparr> = (h ! b)\<lparr>downloads := None\<rparr>"
  by (induction as arbitrary: h) (auto simp: expandRecord_keeps)

lemma expandRecords_version: "version (expandRecords env as h ! b) = version (h ! b)"
proof -
  have "version ((expandRecords env as h ! b)\<lparr>downloads := None\<rparr>)
      = version ((h ! b)\<lparr>downloads := None\<rparr>)"
    by (simp only: expandRecords_keeps)
  then show ?thesis by simp
qed

lemma expandRecords_downloads:
  "a \<in> set as \<Longrightarrow> a < length h \<Longrightarrow>
     downloads (expandRecords env as h ! a)
       = Some (addBinaries env (version (h ! a)) (binaries env) [])"
proof (induction as arbitrary: h)
  case Nil
  then show ?case by simp
next
  case (Cons a0 as)
  let ?h1 = "expandRecord env a0 h"
  have len: "length ?h1 = length h" by (simp add: expandRecord_def)
  have ver: "version (?h1 ! a) = version (h ! a)"
    using expandRecords_version [of env "[a0]" h a] by simp
  show ?case
  proof (cases "a \<in> set as")
    case True
    from Cons.IH [OF True, of ?h1] Cons.prems(2) len ver show ?thesis by simp
  next
    case False
    with Cons.prems(1) have "a = a0" by simp
    with False Cons.prems(2) show ?thesis
      by (simp add: expandRecords_other expandRecord_def)
  qed
qed

lemma memoCopies_lookup:
  "memoCopies L h memo \<Longrightarrow> map_of memo a = Some a' \<Longrightarrow> a < L \<and> h ! a' = h ! a"
  unfolding memoCopies_def by (auto dest: map_of_SomeD)

lemma memo_extend:
  assumes "memoFresh L h memo" and "memoCopies L h memo" and "L \<le> length h"
  shows "memoCopies L (h @ ext) memo"
  using assms unfolding memoFresh_def memoCopies_def
  by (fastforce simp: nth_append)

lemma sameRecords_extend:
  assumes "sameRecords h c c'" and "\<forall>a\<in>snd ` set c. a < length h"
    and "\<forall>a\<in>snd ` set c'. a < length h"
  shows "sameRecords (h @ ext) c c'"
  using assms unfolding sameRecords_def
  by (induction c c' rule: list_all2_induct) (auto simp: nth_append)

lemma cloneRefs_copies:
  "cloneRefs h memo coll = (h', memo', coll') \<Longrightarrow> L \<le> length h \<Longrightarrow> memoFresh L h memo \<Longrightarrow>
   memoCopies L h memo \<Longrightarrow> \<forall>a\<in>snd ` set coll. a < L \<Longrightarrow>
     memoCopies L h' memo' \<and> sameRecords h' coll coll'"
proof (induction coll arbitrary: h memo h' memo' coll')
  case Nil
  then show ?case by (simp add: sameRecords_def)
next
  case (Cons x coll)
  obtain k a where x: "x = (k, a)" by (cases x)
  from Cons.prems(5) x have aL: "a < L" and rest: "\<forall>a\<in>snd ` set coll. a < L" by auto
  show ?case
  proof (cases "map_of memo a")
    case (Some a1)
    obtain h2 m2 r2 where rec: "cloneRefs h memo coll = (h2, m2, r2)"
      by (cases "cloneRefs h memo coll") auto
    with Cons.prems(1) x Some have res: "h' = h2" "memo' = m2" "coll' = (k, a1) # r2"
      by simp_all
    from cloneRefs_fresh [OF rec Cons.prems(2,3)] obtain ext where e: "h2 = h @ ext" by blast
    from Cons.IH [OF rec Cons.prems(2,3,4) rest]
    have ih: "memoCopies L h2 m2" "sameRecords h2 coll r2" by simp_all
    from memoCopies_lookup [OF Cons.prems(4) Some] memoFresh_lookup [OF Cons.prems(3) Some]
      aL Cons.prems(2) e
    have "h2 ! a1 = h2 ! a" by (simp add: nth_append)
    with ih res x show ?thesis by (simp add: sameRecords_def)
  next
    case None
    let ?h0 = "h @ [h ! a]" and ?m0 = "(a, length h) # memo"
    obtain h2 m2 r2 where rec: "cloneRefs ?h0 ?m0 coll = (h2, m2, r2)"
      by (cases "cloneRefs ?h0 ?m0 coll") auto
    with Cons.prems(1) x None have res: "h' = h2" "memo' = m2" "coll' = (k, length h) # r2"
      by (simp_all add: Let_def)
    have l0: "L \<le> length ?h0" using Cons.prems(2) by simp
    have f0: "memoFresh L ?h0 ?m0"
      using Cons.prems(2,3) unfolding memoFresh_def by auto
    have "memoCopies L ?h0 memo"
      by (rule memo_extend [OF Cons.prems(3,4,2)])
    then have c0: "memoCopies L ?h0 ?m0"
      using aL Cons.prems(2) unfolding memoCopies_def by (auto simp: nth_append)
    from cloneRefs_fresh [OF rec l0 f0] obtain ext where e: "h2 = ?h0 @ ext" by blast
    from Cons.IH [OF rec l0 f0 c0 rest]
    have ih: "memoCopies L h2 m2" "sameRecords h2 coll r2" by simp_all
    from e aL Cons.prems(2) have "h2 ! length h = h2 ! a" by (simp add: nth_append)
    with ih res x show ?thesis by (simp add: sameRecords_def)
  qed
qed

lemma cloneCollections_copies:
  "cloneCollections h memo colls = (h', memo', colls') \<Longrightarrow> L \<le> length h \<Longrightarrow>
   memoFresh L h memo \<Longrightarrow> memoCopies L h memo \<Longrightarrow>
   \<forall>coll\<in>snd ` set colls. \<forall>a\<in>snd ` set coll. a < L \<Longrightarrow>
     list_all2 (\<lambda>x y. fst y = fst x \<and> sameRecords h' (snd x) (snd y)) colls colls'"
proof (induction colls arbitrary: h memo h' memo' colls')
  case Nil
  then show ?case by simp
next
  case (Cons x colls)
  obtain name coll where x: "x = (name, coll)" by (cases x)
  obtain h1 m1 c1 where one: "cloneRefs h memo coll = (h1, m1, c1)"
    by (cases "cloneRefs h memo coll") auto
  obtain h2 m2 r2 where rec: "cloneCollections h1 m1 colls = (h2, m2, r2)"
    by (cases "cloneCollections h1 m1 colls") auto
  from Cons.prems(1) x one rec have res: "h' = h2" "memo' = m2" "colls' = (name, c1) # r2"
    by simp_all
  from Cons.prems(5) x have v1: "\<forall>a\<in>snd ` set coll. a < L"
    and v2: "\<forall>coll\<in>snd ` set colls. \<forall>a\<in>snd ` set coll. a < L" by auto
  from cloneRefs_fresh [OF one Cons.prems(2,3)] obtain e1 where c:
    "h1 = h @ e1" "memoFresh L h1 m1"
    "\<forall>a'\<in>snd ` set c1. L \<le> a' \<and> a' < length h1" by blast
  from cloneRefs_copies [OF one Cons.prems(2,3,4) v1]
  have cp: "memoCopies L h1 m1" "sameRecords h1 coll c1" by simp_all
  have l1: "L \<le> length h1" using c(1) Cons.prems(2) by simp
  from cloneCollections_fresh [OF rec l1 c(2)] obtain e2 where e2: "h2 = h1 @ e2" by blast
  have "\<forall>a\<in>snd ` set coll. a < length h1" using v1 l1 by auto
  moreover have "\<forall>a\<in>snd ` set c1. a < length h1" using c(3) by auto
  ultimately have "sameRecords h2 coll c1"
    unfolding e2 by (rule sameRecords_extend [OF cp(2)])
  with Cons.IH [OF rec l1 c(2) cp(1) v2] res x show ?case by simp
qed

lemma addDownloads_unfold:
  assumes "addDownloads env h data key = (h', r)"
  obtains h1 copy where "structuredClone h data = (h1, copy)"
      "map_of (collections copy) key = None" "h' = h1" "r = Inl TypeError"
    | h1 copy records where "structuredClone h data = (h1, copy)"
      "map_of (collections copy) key = Some records"
      "h' = expandRecords env (map snd records) h1" "r = Inr copy"
proof -
  obtain h1 copy where c: "structuredClone h data = (h1, copy)"
    by (cases "structuredClone h data")
  show ?thesis
  proof (cases "map_of (collections copy) key")
    case None
    with assms c have "h' = h1" "r = Inl TypeError" by (simp_all add: addDownloads_def)
    with c None that(1) show ?thesis by blast
  next
    case (Some records)
    with assms c have "h' = expandRecords env (map snd records) h1" "r = Inr copy"
      by (simp_all add: addDownloads_def)
    with c Some that(2) show ?thesis by blast
  qed
qed

lemma map_of_None_keys:
  "map fst xs = map fst ys \<Longrightarrow> map_of xs k = None \<longleftrightarrow> map_of ys k = None"
  by (metis map_of_eq_None_iff set_map)

lemma addDownloads_returns:
  assumes "map_of (collections data) key \<noteq> None"
  shows "\<exists>copy. snd (addDownloads env h data key) = Inr copy"
proof -
  obtain h' r where a: "addDownloads env h data key = (h', r)"
    by (cases "addDownloads env h data key")
  from a show ?thesis
  proof (cases rule: addDownloads_unfold)
    case (1 h1 copy)
    from structuredClone_fresh [OF 1(1)]
    have "map fst (collections copy) = map fst (collections data)" by simp
    from map_of_None_keys [OF this, of key] 1(2) assms show ?thesis by simp
  next
    case (2 h1 copy records)
    with a show ?thesis by simp
  qed
qed

lemma addDownloads_records:
  assumes "addDownloads env h data key = (h', Inr copy)"
  shows "\<exists>records. map_of (collections copy) key = Some records
     \<and> (\<forall>a\<in>snd ` set records.
           downloads (h' ! a)
             = Some (addBinaries env (version (h' ! a)) (binaries env) []))"
  using assms
proof (cases rule: addDownloads_unfold)
  case (1 h1 copy')
  then show ?thesis by simp
next
  case (2 h1 copy' records)
  then have cp: "copy' = copy" by simp
  have "downloads (h' ! a) = Some (addBinaries env (version (h' ! a)) (binaries env) [])"
    if "a \<in> snd ` set records" for a
  proof -
    from 2(2) have "records \<in> snd ` set (collections copy')"
      by (metis map_of_SomeD snd_conv image_eqI)
    with structuredClone_fresh [OF 2(1)] that have "a < length h1" by blast
    moreover from that have "a \<in> set (map snd records)" by simp
    ultimately show ?thesis
      unfolding 2(3) by (simp add: expandRecords_downloads expandRecords_version)
  qed
  with 2(2) cp show ?thesis by blast
qed

lemma sample_expansion:
  "addDownloads sampleImports sampleStore sampleDocument ''channels''
     = (sampleExpanded, Inr sampleCopy)"
  by (simp add: addDownloads_def structuredClone_def expandRecord_def addBinary_def
      sampleImports_def sampleStore_def sampleDocument_def sampleExpanded_def sampleCopy_def
      version_eval Let_def)


lemma structuredClone_copies:
  assumes "structuredClone h data = (h1, copy)" and "validDocument h data"
  shows "list_all2 (\<lambda>x y. fst y = fst x \<and> sameRecords h1 (snd x) (snd y))
           (collections data) (collections copy)"
proof -
  obtain h' m' cs where c: "cloneCollections h [] (collections data) = (h', m', cs)"
    by (cases "cloneCollections h [] (collections data)") auto
  with assms(1) have r: "h1 = h'" "copy = data\<lparr>collections := cs\<rparr>"
    by (simp_all add: structuredClone_def)
  have f: "memoFresh (length h) h []" by (simp add: memoFresh_def)
  have m: "memoCopies (length h) h []" by (simp add: memoCopies_def)
  from assms(2) have v: "\<forall>coll\<in>snd ` set (collections data). \<forall>a\<in>snd ` set coll. a < length h"
    by (simp add: validDocument_def)
  from cloneCollections_copies [OF c le_refl f m v] r show ?thesis by simp
qed

lemma sameRecords_copy:
  assumes s: "sameRecords h1 c c'" and e: "h1 = h @ ext"
    and v: "\<forall>a\<in>snd ` set c. a < length h"
    and k: "\<And>b. (h' ! b)\<lparr>downloads := None\<rparr> = (h1 ! b)\<lparr>downloads := None\<rparr>"
  shows "list_all2
           (\<lambda>p q. fst q = fst p
              \<and> (h' ! snd q)\<lparr>downloads := None\<rparr> = (h ! snd p)\<lparr>downloads := None\<rparr>) c c'"
proof -
  from s have "list_all2 (\<lambda>p q. fst q = fst p \<and> h1 ! snd q = h1 ! snd p) c c'"
    by (simp add: sameRecords_def)
  then show ?thesis
  proof (rule list.rel_mono_strong)
    fix p q assume p: "p \<in> set c" and pq: "fst q = fst p \<and> h1 ! snd q = h1 ! snd p"
    from p v have "snd p < length h" by simp
    with e have "h1 ! snd p = h ! snd p" by (simp add: nth_append)
    with pq k [of "snd q"]
    show "fst q = fst p
        \<and> (h' ! snd q)\<lparr>downloads := None\<rparr> = (h ! snd p)\<lparr>downloads := None\<rparr>"
      by simp
  qed
qed

lemma documents_copy:
  assumes c: "structuredClone h data = (h1, copy)" and v: "validDocument h data"
    and k: "\<And>b. (h' ! b)\<lparr>downloads := None\<rparr> = (h1 ! b)\<lparr>downloads := None\<rparr>"
  shows "copyOfDocument h data h' copy"
proof -
  from structuredClone_fresh [OF c] obtain ext where e: "h1 = h @ ext"
    and t: "timestamp copy = timestamp data" by blast
  from structuredClone_copies [OF c v]
  have "list_all2
          (\<lambda>x y. fst y = fst x
             \<and> list_all2
                  (\<lambda>p q. fst q = fst p
                     \<and> (h' ! snd q)\<lparr>downloads := None\<rparr> = (h ! snd p)\<lparr>downloads := None\<rparr>)
                  (snd x) (snd y))
          (collections data) (collections copy)"
  proof (rule list.rel_mono_strong)
    fix x y assume x: "x \<in> set (collections data)"
      and xy: "fst y = fst x \<and> sameRecords h1 (snd x) (snd y)"
    from x v have "\<forall>a\<in>snd ` set (snd x). a < length h"
      by (auto simp: validDocument_def)
    from sameRecords_copy [OF _ e this k] xy
    show "fst y = fst x
       \<and> list_all2
            (\<lambda>p q. fst q = fst p
               \<and> (h' ! snd q)\<lparr>downloads := None\<rparr> = (h ! snd p)\<lparr>downloads := None\<rparr>)
            (snd x) (snd y)"
      by simp
  qed
  with t show ?thesis by (simp add: copyOfDocument_def)
qed


text \<open>
  Claim C6: a binary that is not yet available for a version is left out. When \<open>key\<close>
  names a collection of the document, \<open>addDownloads\<close> returns a copy; and every record
  of that collection in the copy has a \<open>downloads\<close> object whose keys are the binaries
  that no guard skips for the record's version. So when the version predates the
  availability of chromedriver, the object has no key \<open>chromedriver\<close>, and when it
  predates the availability of chrome-headless-shell, no key \<open>chrome-headless-shell\<close>.
\<close>

theorem downloads_respect_availability:
  "(map_of (collections data) key \<noteq> None
      \<longrightarrow> (\<exists>copy. snd (addDownloads env h data key) = Inr copy))
   \<and> (addDownloads env h data key = (h', Inr copy)
      \<longrightarrow> (\<exists>records. map_of (collections copy) key = Some records
           \<and> (\<forall>a\<in>snd ` set records. \<exists>ds. downloads (h' ! a) = Some ds
                 \<and> fst ` set ds = {b \<in> set (binaries env). listed env (version (h' ! a)) b}
                 \<and> (predatesChromeDriverAvailability env (version (h' ! a))
                      \<longrightarrow> ''chromedriver'' \<notin> fst ` set ds)
                 \<and> (predatesChromeHeadlessShellAvailability env (version (h' ! a))
                      \<longrightarrow> ''chrome-headless-shell'' \<notin> fst ` set ds))))"
proof (intro conjI impI)
  assume "map_of (collections data) key \<noteq> None"
  then show "\<exists>copy. snd (addDownloads env h data key) = Inr copy"
    by (rule addDownloads_returns)
next
  assume "addDownloads env h data key = (h', Inr copy)"
  from addDownloads_records [OF this] obtain records where
    r: "map_of (collections copy) key = Some records"
    and d: "\<And>a. a \<in> snd ` set records \<Longrightarrow>
           downloads (h' ! a) = Some (addBinaries env (version (h' ! a)) (binaries env) [])"
    by blast
  have "\<exists>ds. downloads (h' ! a) = Some ds
          \<and> fst ` set ds = {b \<in> set (binaries env). listed env (version (h' ! a)) b}
          \<and> (predatesChromeDriverAvailability env (version (h' ! a))
               \<longrightarrow> ''chromedriver'' \<notin> fst ` set ds)
          \<and> (predatesChromeHeadlessShellAvailability env (version (h' ! a))
               \<longrightarrow> ''chrome-headless-shell'' \<notin> fst ` set ds)"
    if "a \<in> snd ` set records" for a
  proof -
    let ?ds = "addBinaries env (version (h' ! a)) (binaries env) []"
    have k: "fst ` set ?ds = {b \<in> set (binaries env). listed env (version (h' ! a)) b}"
      by (simp add: keys_addBinaries)
    then have "predatesChromeDriverAvailability env (version (h' ! a))
               \<longrightarrow> ''chromedriver'' \<notin> fst ` set ?ds"
      and "predatesChromeHeadlessShellAvailability env (version (h' ! a))
               \<longrightarrow> ''chrome-headless-shell'' \<notin> fst ` set ?ds"
      by (simp_all add: listed_def)
    with d [OF that] k show ?thesis by blast
  qed
  with r show "\<exists>records. map_of (collections copy) key = Some records
           \<and> (\<forall>a\<in>snd ` set records. \<exists>ds. downloads (h' ! a) = Some ds
                 \<and> fst ` set ds = {b \<in> set (binaries env). listed env (version (h' ! a)) b}
                 \<and> (predatesChromeDriverAvailability env (version (h' ! a))
                      \<longrightarrow> ''chromedriver'' \<notin> fst ` set ds)
                 \<and> (predatesChromeHeadlessShellAvailability env (version (h' ! a))
                      \<longrightarrow> ''chrome-headless-shell'' \<notin> fst ` set ds))"
    by blast
qed


theorem downloads_respect_availability_witness:
  "map_of (collections sampleDocument) ''channels'' \<noteq> None
   \<and> addDownloads sampleImports sampleStore sampleDocument ''channels''
       = (sampleExpanded, Inr sampleCopy)
   \<and> map_of (collections sampleCopy) ''channels''
       = Some [(''Stable'', 2), (''Extended'', 3), (''Beta'', 2)]
   \<and> version (sampleExpanded ! 3) = ''114.0.5735.90''
   \<and> predatesChromeDriverAvailability sampleImports ''114.0.5735.90''
   \<and> predatesChromeHeadlessShellAvailability sampleImports ''114.0.5735.90''
   \<and> (\<exists>ds. downloads (sampleExpanded ! 3) = Some ds
         \<and> ''chromedriver'' \<notin> fst ` set ds \<and> ''chrome-headless-shell'' \<notin> fst ` set ds)"
proof -
  have c: "map_of (collections sampleCopy) ''channels''
       = Some [(''Stable'', 2), (''Extended'', 3), (''Beta'', 2)]"
    by (simp add: sampleCopy_def)
  have v: "version (sampleExpanded ! 3) = ''114.0.5735.90''"
    by (simp add: sampleExpanded_def)
  have p: "predatesChromeDriverAvailability sampleImports ''114.0.5735.90''"
    "predatesChromeHeadlessShellAvailability sampleImports ''114.0.5735.90''"
    by (simp_all add: sampleImports_def version_eval)
  from downloads_respect_availability
    [of sampleDocument "''channels''" sampleImports sampleStore sampleExpanded sampleCopy,
      THEN conjunct2, THEN mp, OF sample_expansion]
  obtain records where
    "map_of (collections sampleCopy) ''channels'' = Some records"
    and d: "\<forall>a\<in>snd ` set records. \<exists>ds. downloads (sampleExpanded ! a) = Some ds
          \<and> fst ` set ds
              = {b \<in> set (binaries sampleImports). listed sampleImports (version (sampleExpanded ! a)) b}
          \<and> (predatesChromeDriverAvailability sampleImports (version (sampleExpanded ! a))
               \<longrightarrow> ''chromedriver'' \<notin> fst ` set ds)
          \<and> (predatesChromeHeadlessShellAvailability sampleImports
                 (version (sampleExpanded ! a))
               \<longrightarrow> ''chrome-headless-shell'' \<notin> fst ` set ds)"
    by (elim exE conjE)
  with c have "records = [(''Stable'', 2), (''Extended'', 3), (''Beta'', 2)]" by simp
  with d have "\<exists>ds. downloads (sampleExpanded ! 3) = Some ds
          \<and> fst ` set ds
              = {b \<in> set (binaries sampleImports). listed sampleImports (version (sampleExpanded ! 3)) b}
          \<and> (predatesChromeDriverAvailability sampleImports (version (sampleExpanded ! 3))
               \<longrightarrow> ''chromedriver'' \<notin> fst ` set ds)
          \<and> (predatesChromeHeadlessShellAvailability sampleImports
                 (version (sampleExpanded ! 3))
               \<longrightarrow> ''chrome-headless-shell'' \<notin> fst ` set ds)"
    by simp
  with v p have "\<exists>ds. downloads (sampleExpanded ! 3) = Some ds
         \<and> ''chromedriver'' \<notin> fst ` set ds \<and> ''chrome-headless-shell'' \<notin> fst ` set ds"
    by auto
  moreover have "map_of (collections sampleDocument) ''channels'' \<noteq> None"
    by (simp add: sampleDocument_def)
  ultimately show ?thesis using c v p sample_expansion by (intro conjI)
qed


text \<open>
  Claim C7: whatever the version of a record and whatever the list of binaries, the
  \<open>downloads\<close> object of every record that \<open>addDownloads\<close> expands has no key
  \<open>mojojs\<close>.
\<close>

theorem downloads_never_list_mojojs:
  assumes "addDownloads env h data key = (h', Inr copy)"
  shows "\<exists>records. map_of (collections copy) key = Some records
     \<and> (\<forall>a\<in>snd ` set records. \<exists>ds. downloads (h' ! a) = Some ds
           \<and> ''mojojs'' \<notin> fst ` set ds)"
proof -
  from addDownloads_records [OF assms] obtain records where
    r: "map_of (collections copy) key = Some records"
    and d: "\<And>a. a \<in> snd ` set records \<Longrightarrow>
           downloads (h' ! a) = Some (addBinaries env (version (h' ! a)) (binaries env) [])"
    by blast
  have "\<exists>ds. downloads (h' ! a) = Some ds \<and> ''mojojs'' \<notin> fst ` set ds"
    if "a \<in> snd ` set records" for a
  proof -
    have "''mojojs'' \<notin> fst ` set (addBinaries env (version (h' ! a)) (binaries env) [])"
      by (simp add: keys_addBinaries listed_def)
    with d [OF that] show ?thesis by blast
  qed
  with r show ?thesis by blast
qed

theorem downloads_never_list_mojojs_witness:
  "addDownloads sampleImports sampleStore sampleDocument ''channels''
       = (sampleExpanded, Inr sampleCopy)
   \<and> ''mojojs'' \<in> set (binaries sampleImports)
   \<and> map_of (collections sampleCopy) ''channels''
       = Some [(''Stable'', 2), (''Extended'', 3), (''Beta'', 2)]
   \<and> (\<exists>ds. downloads (sampleExpanded ! 2) = Some ds \<and> ''mojojs'' \<notin> fst ` set ds)
   \<and> (\<exists>ds. downloads (sampleExpanded ! 3) = Some ds \<and> ''mojojs'' \<notin> fst ` set ds)"
proof -
  have c: "map_of (collections sampleCopy) ''channels''
       = Some [(''Stable'', 2), (''Extended'', 3), (''Beta'', 2)]"
    by (simp add: sampleCopy_def)
  from downloads_never_list_mojojs [OF sample_expansion]
  obtain records where
    "map_of (collections sampleCopy) ''channels'' = Some records"
    and d: "\<forall>a\<in>snd ` set records. \<exists>ds. downloads (sampleExpanded ! a) = Some ds
          \<and> ''mojojs'' \<notin> fst ` set ds"
    by (elim exE conjE)
  with c have "records = [(''Stable'', 2), (''Extended'', 3), (''Beta'', 2)]" by simp
  with d have "(\<exists>ds. downloads (sampleExpanded ! 2) = Some ds \<and> ''mojojs'' \<notin> fst ` set ds)"
    and "(\<exists>ds. downloads (sampleExpanded ! 3) = Some ds \<and> ''mojojs'' \<notin> fst ` set ds)"
    by simp_all
  moreover have "''mojojs'' \<in> set (binaries sampleImports)"
    by (simp add: sampleImports_def)
  ultimately show ?thesis using c sample_expansion by (intro conjI)
qed

text \<open>
  Claim C8: \<open>addDownloads\<close> does not change its input. Whatever the call returns,
  every object that the store held before the call holds the same afterwards, in every
  field. The records of the returned copy are objects allocated by the call, and when
  the addresses of the input document are allocated, the copy is a copy of the input:
  the same timestamp, collections and keys, and records that agree with the input's in
  every field but \<open>downloads\<close>.
\<close>

theorem addDownloads_pure:
  assumes "addDownloads env h data key = (h', r)"
  shows "take (length h) h' = h
     \<and> (\<forall>copy. r = Inr copy \<longrightarrow>
          (\<forall>coll\<in>snd ` set (collections copy). \<forall>a\<in>snd ` set coll.
              length h \<le> a \<and> a < length h')
          \<and> (validDocument h data \<longrightarrow> copyOfDocument h data h' copy))"
  using assms
proof (cases rule: addDownloads_unfold)
  case (1 h1 copy)
  from structuredClone_fresh [OF 1(1)] obtain ext where "h1 = h @ ext" by blast
  with 1 show ?thesis by simp
next
  case (2 h1 copy records)
  from structuredClone_fresh [OF 2(1)] obtain ext where e: "h1 = h @ ext"
    and fr: "\<forall>coll\<in>snd ` set (collections copy). \<forall>a'\<in>snd ` set coll.
           length h \<le> a' \<and> a' < length h1" by blast
  from 2(2) have "records \<in> snd ` set (collections copy)"
    by (metis map_of_SomeD snd_conv image_eqI)
  with fr have "\<forall>a\<in>snd ` set records. length h \<le> a" by blast
  then have "\<forall>a\<in>set (map snd records). length h \<le> a" by simp
  from expandRecords_frame [OF this, of env h1] e 2(3)
  have frame: "take (length h) h' = h" by simp
  have len: "length h' = length h1" by (simp add: 2(3))
  have "copyOfDocument h data h' copy" if "validDocument h data"
    by (rule documents_copy [OF 2(1) that]) (simp add: 2(3) expandRecords_keeps)
  with frame fr len 2(4) show ?thesis by simp
qed


theorem addDownloads_pure_witness:
  "addDownloads sampleImports sampleStore sampleDocument ''channels''
     = (sampleExpanded, Inr sampleCopy)
   \<and> validDocument sampleStore sampleDocument
   \<and> take (length sampleStore) sampleExpanded = sampleStore
   \<and> copyOfDocument sampleStore sampleDocument sampleExpanded sampleCopy
   \<and> map (\<lambda>a. downloads (sampleExpanded ! a)) [0, 1] = [None, None]
   \<and> length sampleStore = 2"
proof -
  have v: "validDocument sampleStore sampleDocument"
    by (simp add: validDocument_def sampleStore_def sampleDocument_def)
  from addDownloads_pure [OF sample_expansion] v
  have "take (length sampleStore) sampleExpanded = sampleStore"
    and "copyOfDocument sampleStore sampleDocument sampleExpanded sampleCopy"
    by simp_all
  with v sample_expansion show ?thesis
    by (simp add: sampleStore_def sampleExpanded_def)
qed


end
